theory Spec2Isabelle
  imports Complex_Main
begin

section \<open>Data model of renpy/text/textsupport.pyx\<close>

text \<open>
  Python \<open>unicode\<close> strings are sequences of code points, so a string is a list of
  natural numbers (one per code point), and \<open>len\<close> is \<open>length\<close>.
  The C \<open>float\<close> fields of a glyph (\<open>width\<close>, \<open>advance\<close>, \<open>time\<close>,
  \<open>duration\<close>) hold the real numbers they denote; every arithmetic operation on
  them rounds its result as section \<open>Machine numbers\<close> says. The C \<open>int\<close>
  fields hold integers, and the additions to them wrap around as that section says;
  \<open>character\<close> is a natural number, and \<open>shader\<close> is an optional reference.
  The objects of a glyph list are pairwise distinct (the shaping stage creates one
  object per glyph), so a list of objects mutated in place is a list of records,
  returned updated.
\<close>

type_synonym unicode = "nat list"

datatype split_t = SPLIT_NONE | SPLIT_BEFORE | SPLIT_INSTEAD | SPLIT_IGNORE

datatype ruby_t = RUBY_NONE | RUBY_BOTTOM | RUBY_TOP | RUBY_ALT

record Glyph =
  x :: int
  y :: int
  delta_x_adjustment :: int
  character :: nat
  variation :: nat
  split :: split_t
  ruby :: ruby_t
  ascent :: int
  descent :: int
  line_spacing :: int
  width :: real
  advance :: real
  time :: real
  hyperlink :: int
  draw :: bool
  add_left :: int
  add_top :: int
  add_right :: int
  add_bottom :: int
  rtl :: bool
  duration :: real
  shader :: "nat option"
  index :: int

record Line =
  line_y :: int
  baseline :: int
  height :: int
  glyphs :: "Glyph list"
  max_time :: real
  eop :: bool

text \<open>The exceptions the functions below can raise.\<close>

datatype error =
  EmptyTextTag unicode
  | OpenTextTag unicode
  | ValueError

definition MAX_WIDTH :: int where
  "MAX_WIDTH = 8192"

section \<open>Machine numbers\<close>

text \<open>
  The C type \<open>float\<close> is the IEEE 754 format binary32 and \<open>double\<close> is
  binary64. An operation on them gives the exact result rounded to the nearest value of
  the format, a tie going to the value with the even significand.
  \<open>fround p emin emax\<close> is this rounding for significands of \<open>p\<close> bits and
  exponents from \<open>emin\<close> to \<open>emax\<close>: the exponent \<open>e\<close> of the number is
  searched from \<open>emin\<close> upward, so that a number below \<open>2 powi emin\<close> is rounded
  on the grid of the subnormal numbers, and the number is rounded to a multiple of
  \<open>2 powi (e - p + 1)\<close>. Infinities and NaN are not modelled: a result of magnitude
  \<open>2 powi (emax + 1)\<close> or more stands for an overflow. \<open>is_f32\<close> says that a
  real number is a finite binary32 value.
\<close>

definition round_half_even :: "real \<Rightarrow> int" where
  "round_half_even r =
     (let n = \<lfloor>r\<rfloor>; d = r - of_int n
      in if d < 1 / 2 then n else if 1 / 2 < d then n + 1 else if even n then n else n + 1)"

fun expo_up :: "nat \<Rightarrow> int \<Rightarrow> real \<Rightarrow> int" where
  "expo_up 0 e a = e"
| "expo_up (Suc n) e a = (if 2 powi (e + 1) \<le> a then expo_up n (e + 1) a else e)"

definition fround :: "nat \<Rightarrow> int \<Rightarrow> int \<Rightarrow> real \<Rightarrow> real" where
  "fround p emin emax r =
     (let e = expo_up (nat (emax - emin)) emin \<bar>r\<bar>;
          u = 2 powi (e - int p + 1)
      in u * of_int (round_half_even (r / u)))"

definition f32 :: "real \<Rightarrow> real" where
  "f32 = fround 24 (- 126) 127"

definition f64 :: "real \<Rightarrow> real" where
  "f64 = fround 53 (- 1022) 1023"

definition is_f32 :: "real \<Rightarrow> bool" where
  "is_f32 r = (f32 r = r \<and> \<bar>r\<bar> < 2 ^ 128)"

text \<open>
  The C type \<open>int\<close> has 32 bits. \<open>in_int\<close> says that an integer is a value of
  the type, and \<open>int_wrap\<close> is the value that an addition or subtraction of two
  such values leaves (two's complement; C leaves the overflow undefined).
\<close>

definition in_int :: "int \<Rightarrow> bool" where
  "in_int n = (- (2 ^ 31) \<le> n \<and> n < 2 ^ 31)"

definition int_wrap :: "int \<Rightarrow> int" where
  "int_wrap n = (n + 2 ^ 31) mod 2 ^ 32 - 2 ^ 31"

section \<open>Tokenizer\<close>

datatype token_kind = TEXT | TAG | PARAGRAPH | DISPLAYABLE

type_synonym token = "token_kind \<times> unicode"

definition NEWLINE :: nat where "NEWLINE = 10"
definition LBRACE :: nat where "LBRACE = 123"
definition RBRACE :: nat where "RBRACE = 125"
definition VBAR :: nat where "VBAR = 124"
definition LENT_LEFT :: nat where "LENT_LEFT = 12304"
definition LENT_RIGHT :: nat where "LENT_RIGHT = 12305"
definition FULLWIDTH_VBAR :: nat where "FULLWIDTH_VBAR = 65372"

definition ustr :: "string \<Rightarrow> unicode" where
  "ustr cs = map of_char cs"

subsection \<open>lenticular_bracket_ruby\<close>

datatype lbr_state = LBR_TEXT_STATE | LBR_LEFT_STATE | LBR_RIGHT_STATE

text \<open>One iteration of the loop over the characters: state, buffer, result so far.\<close>

fun lbr_step :: "nat \<Rightarrow> lbr_state \<times> unicode \<times> token list \<Rightarrow> lbr_state \<times> unicode \<times> token list" where
  "lbr_step c (LBR_TEXT_STATE, buf, rv) =
     (if c = LENT_LEFT
      then (LBR_LEFT_STATE, [], if buf \<noteq> [] then rv @ [(TEXT, buf)] else rv)
      else (LBR_TEXT_STATE, buf @ [c], rv))"
| "lbr_step c (LBR_LEFT_STATE, buf, rv) =
     (if c = LENT_LEFT \<and> buf = [] then (LBR_TEXT_STATE, buf @ [c], rv)
      else if c = LENT_RIGHT
        then (LBR_TEXT_STATE, [], rv @ [(TEXT, [LENT_LEFT] @ buf @ [LENT_RIGHT])])
      else if c = FULLWIDTH_VBAR \<or> c = VBAR
        then (LBR_RIGHT_STATE, [], rv @ [(TAG, ustr ''rb''), (TEXT, buf), (TAG, ustr ''/rb'')])
      else (LBR_LEFT_STATE, buf @ [c], rv))"
| "lbr_step c (LBR_RIGHT_STATE, buf, rv) =
     (if c = LENT_RIGHT
      then (LBR_TEXT_STATE, [], rv @ [(TAG, ustr ''rt''), (TEXT, buf), (TAG, ustr ''/rt'')])
      else (LBR_RIGHT_STATE, buf @ [c], rv))"

fun lbr_finish :: "lbr_state \<times> unicode \<times> token list \<Rightarrow> token list" where
  "lbr_finish (st, buf, rv) =
     (if buf \<noteq> [] then
        (case st of
           LBR_TEXT_STATE \<Rightarrow> rv @ [(TEXT, buf)]
         | LBR_LEFT_STATE \<Rightarrow> rv @ [(TEXT, [LENT_LEFT] @ buf)]
         | LBR_RIGHT_STATE \<Rightarrow> rv @ [(TAG, ustr ''rt''), (TEXT, buf), (TAG, ustr ''/rt'')])
      else rv)"

definition lenticular_bracket_ruby :: "unicode \<Rightarrow> token list" where
  "lenticular_bracket_ruby s = lbr_finish (fold lbr_step s (LBR_TEXT_STATE, [], []))"

subsection \<open>tokenize\<close>

datatype tok_state = TEXT_STATE | LEFT_BRACE_STATE | TAG_STATE

text \<open>
  The inner function \<open>finish_text\<close>; \<open>cfg\<close> is the value of
  \<open>renpy.config.lenticular_bracket_ruby\<close>, which is read from the configuration and is
  a parameter here.
\<close>

definition finish_text :: "bool \<Rightarrow> unicode \<Rightarrow> token list \<Rightarrow> token list" where
  "finish_text cfg buf rv =
     (if LENT_LEFT \<in> set buf \<and> cfg then rv @ lenticular_bracket_ruby buf
      else rv @ [(TEXT, buf)])"

text \<open>
  The loop \<open>for c in s\<close>: the remaining characters, then the state, the buffer and the
  result list. The first argument \<open>s\<close> is the whole input, quoted by the error.
\<close>

fun tokenize_loop ::
  "bool \<Rightarrow> unicode \<Rightarrow> unicode \<Rightarrow> tok_state \<Rightarrow> unicode \<Rightarrow> token list
    \<Rightarrow> error + (tok_state \<times> unicode \<times> token list)" where
  "tokenize_loop cfg s [] st buf rv = Inr (st, buf, rv)"
| "tokenize_loop cfg s (c # cs) TEXT_STATE buf rv =
     (if c = NEWLINE then
        tokenize_loop cfg s cs TEXT_STATE []
          ((if buf \<noteq> [] then finish_text cfg buf rv else rv) @ [(PARAGRAPH, [])])
      else if c = LBRACE then tokenize_loop cfg s cs LEFT_BRACE_STATE buf rv
      else tokenize_loop cfg s cs TEXT_STATE (buf @ [c]) rv)"
| "tokenize_loop cfg s (c # cs) LEFT_BRACE_STATE buf rv =
     (if c = LBRACE then tokenize_loop cfg s cs TEXT_STATE (buf @ [c]) rv
      else if c = RBRACE then Inl (EmptyTextTag s)
      else tokenize_loop cfg s cs TAG_STATE [c]
             (if buf \<noteq> [] then finish_text cfg buf rv else rv))"
| "tokenize_loop cfg s (c # cs) TAG_STATE buf rv =
     (if c = RBRACE then tokenize_loop cfg s cs TEXT_STATE [] (rv @ [(TAG, buf)])
      else tokenize_loop cfg s cs TAG_STATE (buf @ [c]) rv)"

text \<open>
  The final \<open>if s == "": print(rv)\<close> of the source is unreachable (the empty string
  returned at the top) and has no effect on the result.
\<close>

definition tokenize :: "bool \<Rightarrow> unicode \<Rightarrow> error + token list" where
  "tokenize cfg s =
     (if s = [] then Inr []
      else if LBRACE \<notin> set s \<and> NEWLINE \<notin> set s \<and> LENT_LEFT \<notin> set s then Inr [(TEXT, s)]
      else
        (case tokenize_loop cfg s s TEXT_STATE [] [] of
           Inl e \<Rightarrow> Inl e
         | Inr (st, buf, rv) \<Rightarrow>
             if st \<noteq> TEXT_STATE then Inl (OpenTextTag s)
             else Inr (if buf \<noteq> [] then finish_text cfg buf rv else rv)))"

section \<open>Break classification: annotate_unicode\<close>

text \<open>
  The file \<open>linebreak.pxi\<close> that the module includes holds the break class constants,
  the four class tables (one per CJK profile) and the pair table \<open>break_rules\<close>. It
  is taken as a parameter, together with the process-wide \<open>break_tailor\<close> array.
  Classes and table bytes are natural numbers; \<open>%\<close> is byte 37 and \<open>_\<close> byte 95.
\<close>

record linebreak_pxi =
  BC_WJ :: nat
  BC_GL :: nat
  BC_SP :: nat
  BC_CM :: nat
  BC_CB :: nat
  BC_CL :: nat
  BC_CP :: nat
  BC_H2 :: nat
  BC_H3 :: nat
  BC_ID :: nat
  BC_JL :: nat
  BC_JV :: nat
  BC_JT :: nat
  BC_AL :: nat
  BC_XX :: nat
  BC_PITCH :: nat
  break_western :: "nat \<Rightarrow> nat"
  break_cjk_loose :: "nat \<Rightarrow> nat"
  break_cjk_normal :: "nat \<Rightarrow> nat"
  break_cjk_strict :: "nat \<Rightarrow> nat"
  break_rules :: "nat \<Rightarrow> nat"
  break_tailor :: "nat \<Rightarrow> nat"

definition break_classes :: "linebreak_pxi \<Rightarrow> int \<Rightarrow> nat \<Rightarrow> nat" where
  "break_classes T cjk =
     (if cjk = 0 then break_western T
      else if cjk = 1 then break_cjk_loose T
      else if cjk = 2 then break_cjk_normal T
      else if cjk = 3 then break_cjk_strict T
      else break_western T)"

text \<open>
  The class the loop body works with for code point \<open>c\<close>: the table class (or the
  fixed class of a supplementary plane), demoted by \<open>no_ideographs\<close>, normalised, and
  overridden by the tailoring.
\<close>

definition effective_class :: "linebreak_pxi \<Rightarrow> bool \<Rightarrow> int \<Rightarrow> nat \<Rightarrow> nat" where
  "effective_class T no_ideographs cjk c =
     (let (new_type, tailor_type) =
            (if 131072 \<le> c \<and> c \<le> 196607 then (BC_ID T, BC_XX T)
             else if c > 65535 then (BC_AL T, BC_XX T)
             else (break_classes T cjk c, break_tailor T c));
          new_type =
            (if no_ideographs \<and>
                (new_type = BC_H2 T \<or> new_type = BC_H3 T \<or> new_type = BC_ID T \<or>
                 new_type = BC_JL T \<or> new_type = BC_JV T \<or> new_type = BC_JT T)
             then BC_AL T else new_type);
          new_type =
            (if new_type \<ge> BC_PITCH T \<and> new_type \<noteq> BC_SP T \<and> new_type \<noteq> BC_CB T
             then BC_AL T else new_type)
      in if tailor_type \<noteq> BC_XX T then tailor_type else new_type)"

definition set_split :: "nat \<Rightarrow> split_t \<Rightarrow> Glyph list \<Rightarrow> Glyph list" where
  "set_split i s gl = gl[i := (gl ! i)\<lparr>split := s\<rparr>]"

text \<open>
  One iteration of \<open>for pos in range(1, len_glyphs)\<close>. The state is
  \<open>(old_type, space_pos, glyphs)\<close>; \<open>space_pos = 0\<close> means that no space is
  pending, as in the source.
\<close>

definition annotate_step ::
  "linebreak_pxi \<Rightarrow> bool \<Rightarrow> int \<Rightarrow> nat \<Rightarrow> nat \<times> nat \<times> Glyph list \<Rightarrow> nat \<times> nat \<times> Glyph list" where
  "annotate_step T no_ideographs cjk pos st =
     (case st of (old_type, space_pos, gl) \<Rightarrow>
        (let new_type = effective_class T no_ideographs cjk (character (gl ! pos)) in
         if new_type = BC_SP T then (old_type, pos, set_split pos SPLIT_NONE gl)
         else if new_type = BC_CM T then (old_type, space_pos, set_split pos SPLIT_NONE gl)
         else if new_type = BC_CB T then
           (old_type, space_pos,
            set_split pos
              (if old_type = BC_WJ T \<or> old_type = BC_GL T then SPLIT_NONE else SPLIT_BEFORE) gl)
         else if old_type = BC_CB T then
           (old_type, space_pos,
            set_split pos
              (if new_type = BC_WJ T \<or> new_type = BC_GL T then SPLIT_NONE else SPLIT_BEFORE) gl)
         else if new_type = BC_CL T \<or> new_type = BC_CP T then
           (old_type, space_pos, set_split pos SPLIT_IGNORE gl)
         else
           (let bc = break_rules T (old_type * BC_PITCH T + new_type) in
            (new_type, 0,
             if bc = 37 then
               set_split pos SPLIT_NONE
                 (if space_pos \<noteq> 0 then set_split space_pos SPLIT_INSTEAD gl else gl)
             else if bc = 95 then
               (if space_pos \<noteq> 0
                then set_split pos SPLIT_NONE (set_split space_pos SPLIT_INSTEAD gl)
                else set_split pos SPLIT_BEFORE gl)
             else set_split pos SPLIT_NONE gl))))"

text \<open>The second loop (ruby and displayables); the first argument is \<open>old_g\<close>.\<close>

fun ruby_pass :: "Glyph \<Rightarrow> Glyph list \<Rightarrow> Glyph list" where
  "ruby_pass old_g [] = []"
| "ruby_pass old_g (g # gl) =
     (let g1 = (if character g = 0 then g\<lparr>split := SPLIT_BEFORE\<rparr> else g);
          g2 = (if ruby g1 = RUBY_TOP \<or> ruby g1 = RUBY_ALT then g1\<lparr>split := SPLIT_NONE\<rparr>
                else if ruby g1 = RUBY_BOTTOM \<and> ruby old_g = RUBY_BOTTOM
                  then g1\<lparr>split := SPLIT_NONE\<rparr>
                else g1)
      in g2 # ruby_pass g2 gl)"

definition annotate_unicode :: "linebreak_pxi \<Rightarrow> Glyph list \<Rightarrow> bool \<Rightarrow> int \<Rightarrow> Glyph list" where
  "annotate_unicode T gl no_ideographs cjk =
     (if gl = [] then gl
      else
        (case fold (annotate_step T no_ideographs cjk) [1..<length gl] (BC_WJ T, 0, gl) of
           (old_type, space_pos, gl1) \<Rightarrow>
             (let gl2 = set_split 0 SPLIT_NONE gl1 in ruby_pass (gl2 ! 0) gl2)))"

section \<open>Greedy line breaking: linebreak_greedy\<close>

text \<open>
  The local variables of the loop. \<open>lb_split_g\<close> is the position of the pending
  candidate in the glyph list, \<open>None\<close> when there is none. \<open>width\<close>,
  \<open>x\<close>, \<open>splitx\<close> and \<open>ignored\<close> are C floats: every sum of the loop is
  rounded to binary32, and so are the two widths when they are stored in \<open>width\<close>.
  The widths are C ints; a Python number outside that range makes the call raise
  before the body runs, and the model is the body.
\<close>

record greedy_state =
  lb_glyphs :: "Glyph list"
  lb_width :: real
  lb_split_g :: "nat option"
  lb_x :: real
  lb_splitx :: real
  lb_ignored :: real

text \<open>\<open>if split_g is not None: split_g.split = SPLIT_NONE\<close>\<close>

definition demote :: "nat option \<Rightarrow> Glyph list \<Rightarrow> Glyph list" where
  "demote sg gl = (case sg of None \<Rightarrow> gl | Some j \<Rightarrow> set_split j SPLIT_NONE gl)"

definition greedy_step :: "real \<Rightarrow> nat \<Rightarrow> greedy_state \<Rightarrow> greedy_state" where
  "greedy_step rest_width i st =
     (let g = lb_glyphs st ! i in
      if ruby g = RUBY_TOP then st
      else if ruby g = RUBY_ALT then st
      else if split g = SPLIT_IGNORE then
        st\<lparr>lb_ignored := f32 (lb_ignored st + advance g)\<rparr>
      else
        (let st1 = (if lb_x st > lb_width st \<and> lb_split_g st \<noteq> None
                    then st\<lparr>lb_x := lb_splitx st, lb_split_g := None, lb_width := rest_width\<rparr>
                    else st);
             st2 = st1\<lparr>lb_x := f32 (lb_x st1 + f32 (advance g + lb_ignored st1)),
                       lb_splitx := f32 (lb_splitx st1 + f32 (advance g + lb_ignored st1)),
                       lb_ignored := 0\<rparr>
         in if split g = SPLIT_INSTEAD then
              st2\<lparr>lb_glyphs := demote (lb_split_g st2) (lb_glyphs st2),
                  lb_split_g := Some i, lb_splitx := 0\<rparr>
            else if split g = SPLIT_BEFORE then
              st2\<lparr>lb_glyphs := demote (lb_split_g st2) (lb_glyphs st2),
                  lb_split_g := Some i, lb_splitx := advance g\<rparr>
            else st2))"

definition greedy_init :: "Glyph list \<Rightarrow> int \<Rightarrow> greedy_state" where
  "greedy_init gl first_width =
     \<lparr>lb_glyphs = gl, lb_width = f32 (real_of_int first_width), lb_split_g = None,
      lb_x = 0, lb_splitx = 0, lb_ignored = 0\<rparr>"

definition greedy_loop :: "Glyph list \<Rightarrow> int \<Rightarrow> int \<Rightarrow> greedy_state" where
  "greedy_loop gl first_width rest_width =
     fold (greedy_step (f32 (real_of_int rest_width))) [0..<length gl]
       (greedy_init gl first_width)"

definition linebreak_greedy :: "Glyph list \<Rightarrow> int \<Rightarrow> int \<Rightarrow> Glyph list" where
  "linebreak_greedy gl first_width rest_width =
     (let st = greedy_loop gl first_width rest_width;
          sg = (if lb_x st > lb_width st then None else lb_split_g st)
      in demote sg (lb_glyphs st))"

section \<open>linebreak_nobreak and linebreak_list\<close>

definition linebreak_nobreak :: "Glyph list \<Rightarrow> Glyph list" where
  "linebreak_nobreak gl = map (\<lambda>g. g\<lparr>split := SPLIT_NONE\<rparr>) gl"

text \<open>
  Python's \<open>chr\<close> raises for an argument outside \<open>range(0x110000)\<close> (one error
  value stands for what it raises); otherwise it is the one-character string of that code
  point.
\<close>

definition chr_py :: "nat \<Rightarrow> error + unicode" where
  "chr_py c = (if c < 1114112 then Inr [c] else Inl ValueError)"

fun linebreak_list_loop ::
  "Glyph list \<Rightarrow> unicode list \<Rightarrow> unicode \<Rightarrow> error + (unicode list \<times> unicode)" where
  "linebreak_list_loop [] rv line = Inr (rv, line)"
| "linebreak_list_loop (g # gl) rv line =
     (if split g = SPLIT_INSTEAD then linebreak_list_loop gl (rv @ [line]) []
      else if split g = SPLIT_BEFORE then
        (case chr_py (character g) of
           Inl e \<Rightarrow> Inl e
         | Inr ch \<Rightarrow> linebreak_list_loop gl (rv @ [line]) ch)
      else
        (case chr_py (character g) of
           Inl e \<Rightarrow> Inl e
         | Inr ch \<Rightarrow> linebreak_list_loop gl rv (line @ ch)))"

definition linebreak_list :: "Glyph list \<Rightarrow> error + unicode list" where
  "linebreak_list gl =
     (case linebreak_list_loop gl [] [] of
        Inl e \<Rightarrow> Inl e
      | Inr (rv, line) \<Rightarrow> Inr (if line \<noteq> [] then rv @ [line] else rv))"

section \<open>Timing: assign_times and max_times\<close>



text \<open>
  \<open>max_times\<close>: the variable \<open>max_time\<close> is set to 0 before the loop over the lines
  and carried from one line to the next. The result is the value returned and the lines
  with their \<open>max_time\<close> fields set.
\<close>

definition max_time_glyphs :: "Glyph list \<Rightarrow> real \<Rightarrow> real" where
  "max_time_glyphs gl m = fold (\<lambda>g m. if time g > m then time g else m) gl m"

fun max_times_loop :: "Line list \<Rightarrow> real \<Rightarrow> real \<times> Line list" where
  "max_times_loop [] m = (m, [])"
| "max_times_loop (l # ls) m =
     (let m' = max_time_glyphs (glyphs l) m in
      case max_times_loop ls m' of (r, ls') \<Rightarrow> (r, l\<lparr>max_time := m'\<rparr> # ls'))"

definition max_times :: "Line list \<Rightarrow> real \<times> Line list" where
  "max_times ls = max_times_loop ls 0"

section \<open>Alignment and justification: align_and_justify\<close>

text \<open>
  The C cast \<open><int>\<close> of a float truncates toward zero; for a number outside the
  range of the type the conversion instruction of the usual targets leaves the least
  value (C leaves the result undefined).
\<close>

definition c_int :: "real \<Rightarrow> int" where
  "c_int r =
     (let n = (if r \<ge> 0 then \<lfloor>r\<rfloor> else \<lceil>r\<rceil>)
      in if in_int n then n else - (2 ^ 31))"

text \<open>
  The first loop over a line: the pair \<open>(spaces, max_x)\<close>. In \<open>g.x + g.width\<close>
  the int is converted to float and the sum is a sum of floats. The counter
  \<open>spaces\<close> is a natural number: a line is taken to have fewer than \<open>2 ^ 31\<close>
  glyphs.
\<close>

definition measure_step :: "Glyph \<Rightarrow> nat \<times> int \<Rightarrow> nat \<times> int" where
  "measure_step g sm =
     (if ruby g = RUBY_TOP then sm
      else if ruby g = RUBY_ALT then sm
      else ((if character g = 32 then fst sm + 1 else fst sm),
            c_int (f32 (f32 (real_of_int (x g)) + width g))))"

definition measure_line :: "Glyph list \<Rightarrow> nat \<times> int" where
  "measure_line gl = fold measure_step gl (0, 0)"

text \<open>
  The justification loop: \<open>justify_offset\<close> is a float, and \<open>g.x\<close> is a C int.
\<close>

fun justify_glyphs :: "real \<Rightarrow> real \<Rightarrow> Glyph list \<Rightarrow> Glyph list" where
  "justify_glyphs per_space off [] = []"
| "justify_glyphs per_space off (g # gl) =
     (if ruby g = RUBY_TOP then g # justify_glyphs per_space off gl
      else if ruby g = RUBY_ALT then g # justify_glyphs per_space off gl
      else
        (let off' = (if character g = 32 then f32 (off + per_space) else off)
         in g\<lparr>x := int_wrap (x g + c_int off')\<rparr> # justify_glyphs per_space off' gl))"

definition shift_glyph :: "int \<Rightarrow> Glyph \<Rightarrow> Glyph" where
  "shift_glyph offset g =
     (if ruby g = RUBY_TOP then g
      else if ruby g = RUBY_ALT then g
      else g\<lparr>x := int_wrap (x g + offset)\<rparr>)"

text \<open>
  The body of the loop over the lines. \<open>1.0 * (width - max_x) / spaces\<close> is computed
  in doubles from the int \<open>width - max_x\<close> and stored in a float;
  \<open>(width - max_x) * text_align\<close> is a product of floats.
\<close>

definition align_line :: "int \<Rightarrow> real \<Rightarrow> bool \<Rightarrow> Line \<Rightarrow> Line" where
  "align_line w text_align justify l =
     (case measure_line (glyphs l) of
        (spaces, max_x) \<Rightarrow>
          if max_x \<ge> MAX_WIDTH then l
          else if justify \<and> spaces \<noteq> 0 \<and> \<not> eop l then
            l\<lparr>glyphs :=
                justify_glyphs
                  (f32 (f64 (f64 (1 * real_of_int (int_wrap (w - max_x))) / real spaces)))
                  (1 / 2) (glyphs l)\<rparr>
          else
            l\<lparr>glyphs :=
                map (shift_glyph
                       (c_int (f32 (f32 (real_of_int (int_wrap (w - max_x))) * text_align))))
                  (glyphs l)\<rparr>)"

text \<open>The parameter \<open>text_align\<close> is a C float: the number given is rounded.\<close>

definition align_and_justify :: "Line list \<Rightarrow> int \<Rightarrow> real \<Rightarrow> bool \<Rightarrow> Line list" where
  "align_and_justify lines w text_align justify =
     (let ta = f32 text_align
      in if \<not> justify \<and> ta = 0 then lines
         else map (align_line w ta justify) lines)"

section \<open>Bidi reversal: reverse_lines\<close>

text \<open>
  The loop of \<open>reverse_lines\<close>: the remaining glyphs, then \<open>rv\<close> and \<open>block\<close>.
  The list returned holds the glyphs as the loop has marked them.
\<close>

fun reverse_lines_loop :: "Glyph list \<Rightarrow> Glyph list \<Rightarrow> Glyph list \<Rightarrow> Glyph list" where
  "reverse_lines_loop [] rv block = rv @ rev block"
| "reverse_lines_loop (g # gl) rv block =
     (if split g = SPLIT_INSTEAD then reverse_lines_loop gl (rv @ rev block @ [g]) []
      else reverse_lines_loop gl rv (block @ [g\<lparr>rtl := True\<rparr>]))"

definition reverse_lines :: "Glyph list \<Rightarrow> Glyph list" where
  "reverse_lines gl = reverse_lines_loop gl [] []"

section \<open>Notions used to state the results\<close>

subsection \<open>Sample glyphs and lines\<close>

text \<open>A glyph as \<open>__cinit__\<close> leaves it (the other fields zero), and an empty line.\<close>

definition glyph0 :: Glyph where
  "glyph0 = \<lparr>x = 0, y = 0, delta_x_adjustment = 0, character = 0, variation = 0,
     split = SPLIT_NONE, ruby = RUBY_NONE, ascent = 0, descent = 0, line_spacing = 0,
     width = 0, advance = 0, time = 0, hyperlink = 0, draw = False,
     add_left = 0, add_top = 0, add_right = 0, add_bottom = 0, rtl = False,
     duration = - 1, shader = None, index = 0\<rparr>"

text \<open>A glyph of the given code point, split class and advance (its width the same).\<close>

definition mk_glyph :: "nat \<Rightarrow> split_t \<Rightarrow> real \<Rightarrow> Glyph" where
  "mk_glyph c s a = glyph0\<lparr>character := c, split := s, width := a, advance := a\<rparr>"

definition line0 :: Line where
  "line0 = \<lparr>line_y = 0, baseline = 0, height = 0, glyphs = [], max_time = 0, eop = False\<rparr>"

subsection \<open>Break classes\<close>

text \<open>
  The effective break class of a glyph, and a glyph whose class is the space class or
  the combining mark class.
\<close>

definition glyph_class :: "linebreak_pxi \<Rightarrow> bool \<Rightarrow> int \<Rightarrow> Glyph \<Rightarrow> nat" where
  "glyph_class T no_ideographs cjk g = effective_class T no_ideographs cjk (character g)"

definition spacing_class :: "linebreak_pxi \<Rightarrow> bool \<Rightarrow> int \<Rightarrow> Glyph \<Rightarrow> bool" where
  "spacing_class T no_ideographs cjk g =
     (effective_class T no_ideographs cjk (character g) = BC_SP T
      \<or> effective_class T no_ideographs cjk (character g) = BC_CM T)"

text \<open>
  A space; a real character, which is a glyph whose class goes through the pair table
  and becomes the class of the previous character (every class but the space, the
  combining mark, the contingent break and the two closing classes); and the other
  glyphs, which are passed over with the pending space and the previous class kept.
\<close>

definition space_glyph :: "linebreak_pxi \<Rightarrow> bool \<Rightarrow> int \<Rightarrow> Glyph \<Rightarrow> bool" where
  "space_glyph T no_ideographs cjk g = (glyph_class T no_ideographs cjk g = BC_SP T)"

definition real_glyph :: "linebreak_pxi \<Rightarrow> bool \<Rightarrow> int \<Rightarrow> Glyph \<Rightarrow> bool" where
  "real_glyph T no_ideographs cjk g =
     (glyph_class T no_ideographs cjk g \<noteq> BC_SP T
      \<and> glyph_class T no_ideographs cjk g \<noteq> BC_CM T
      \<and> glyph_class T no_ideographs cjk g \<noteq> BC_CB T
      \<and> glyph_class T no_ideographs cjk g \<noteq> BC_CL T
      \<and> glyph_class T no_ideographs cjk g \<noteq> BC_CP T)"

definition inert_glyph :: "linebreak_pxi \<Rightarrow> bool \<Rightarrow> int \<Rightarrow> Glyph \<Rightarrow> bool" where
  "inert_glyph T no_ideographs cjk g =
     (\<not> space_glyph T no_ideographs cjk g \<and> \<not> real_glyph T no_ideographs cjk g)"

text \<open>
  The class of the last real character at the positions \<open>1..j-1\<close>, and the class
  \<open>BC_WJ\<close> when there is none (the first glyph of the list is never classified).
\<close>

fun prev_class :: "linebreak_pxi \<Rightarrow> bool \<Rightarrow> int \<Rightarrow> Glyph list \<Rightarrow> nat \<Rightarrow> nat" where
  "prev_class T no_ideographs cjk gl 0 = BC_WJ T"
| "prev_class T no_ideographs cjk gl (Suc j) =
     (if 1 \<le> j \<and> real_glyph T no_ideographs cjk (gl ! j)
      then glyph_class T no_ideographs cjk (gl ! j)
      else prev_class T no_ideographs cjk gl j)"

text \<open>
  Position \<open>j\<close> holds a real character, and the pair table gives an indirect break
  (\<open>%\<close>) or a direct break (\<open>_\<close>) for the previous real character and this one.
\<close>

definition break_here :: "linebreak_pxi \<Rightarrow> bool \<Rightarrow> int \<Rightarrow> Glyph list \<Rightarrow> nat \<Rightarrow> bool" where
  "break_here T no_ideographs cjk gl j =
     (real_glyph T no_ideographs cjk (gl ! j)
      \<and> (let bc = break_rules T (prev_class T no_ideographs cjk gl j * BC_PITCH T
                                  + glyph_class T no_ideographs cjk (gl ! j))
         in bc = 37 \<or> bc = 95))"

text \<open>
  The break that is deferred to the next real character: behind position \<open>k\<close> there
  is a real character, with neither a space nor a real character between the two, and
  the pair table gives a break there.
\<close>

definition deferred_break ::
  "linebreak_pxi \<Rightarrow> bool \<Rightarrow> int \<Rightarrow> Glyph list \<Rightarrow> nat \<Rightarrow> bool" where
  "deferred_break T no_ideographs cjk gl k =
     (\<exists>j\<in>{k<..<length gl}.
        (\<forall>m\<in>{k<..<j}. inert_glyph T no_ideographs cjk (gl ! m))
        \<and> break_here T no_ideographs cjk gl j)"

text \<open>
  The glyphs that the second loop leaves without a break: ruby-top and ruby-alt glyphs,
  and a ruby-bottom glyph behind a ruby-bottom glyph (the first glyph of the list is
  compared with itself).
\<close>

definition ruby_suppressed :: "Glyph list \<Rightarrow> nat \<Rightarrow> bool" where
  "ruby_suppressed gl i =
     (ruby (gl ! i) = RUBY_TOP \<or> ruby (gl ! i) = RUBY_ALT
      \<or> (ruby (gl ! i) = RUBY_BOTTOM \<and> ruby (gl ! (i - 1)) = RUBY_BOTTOM))"

text \<open>
  The invariant of the first loop of annotate_unicode, before position \<open>pos\<close>. A space
  at \<open>k\<close> is pending as long as only inert glyphs follow it; its break is resolved
  when the real character that ends the run of inert glyphs breaks.
\<close>

definition pending :: "linebreak_pxi \<Rightarrow> bool \<Rightarrow> int \<Rightarrow> Glyph list \<Rightarrow> nat \<Rightarrow> nat \<Rightarrow> bool" where
  "pending T noi cjk gl k p = (\<forall>m. k < m \<and> m < p \<longrightarrow> inert_glyph T noi cjk (gl ! m))"

definition resolved_before ::
  "linebreak_pxi \<Rightarrow> bool \<Rightarrow> int \<Rightarrow> Glyph list \<Rightarrow> nat \<Rightarrow> nat \<Rightarrow> bool" where
  "resolved_before T noi cjk gl k p =
     (\<exists>j. k < j \<and> j < p \<and> pending T noi cjk gl k j \<and> break_here T noi cjk gl j)"

definition annotate_inv ::
  "linebreak_pxi \<Rightarrow> bool \<Rightarrow> int \<Rightarrow> Glyph list \<Rightarrow> nat \<Rightarrow> nat \<times> nat \<times> Glyph list \<Rightarrow> bool" where
  "annotate_inv T noi cjk gl pos st =
     (case st of (old_type, space_pos, G) \<Rightarrow>
        length G = length gl
        \<and> (\<forall>k. character (G ! k) = character (gl ! k))
        \<and> (\<forall>k. ruby (G ! k) = ruby (gl ! k))
        \<and> old_type = prev_class T noi cjk gl pos
        \<and> old_type \<noteq> BC_CB T
        \<and> (space_pos \<noteq> 0 \<longrightarrow> space_pos < pos \<and> space_glyph T noi cjk (gl ! space_pos))
        \<and> (\<forall>k. 1 \<le> k \<and> k < pos \<and> space_glyph T noi cjk (gl ! k) \<longrightarrow>
               pending T noi cjk gl k pos = (space_pos = k))
        \<and> (\<forall>k. 1 \<le> k \<and> k < pos \<and> space_glyph T noi cjk (gl ! k) \<longrightarrow>
               split (G ! k) =
                 (if resolved_before T noi cjk gl k pos then SPLIT_INSTEAD else SPLIT_NONE))
        \<and> (\<forall>k. 1 \<le> k \<and> k < pos \<and> glyph_class T noi cjk (gl ! k) = BC_CM T
                \<and> \<not> space_glyph T noi cjk (gl ! k) \<longrightarrow>
               split (G ! k) = SPLIT_NONE))"

text \<open>
  Sample tables. The class numbers are sample values. The class tables give the code
  point 0 the class CM (as the Unicode line breaking data does for U+0000), the space
  the class SP and every other code point the class AL; every pair rule is \<open>%\<close>,
  the indirect break; nothing is tailored.
\<close>

definition sample_pxi :: linebreak_pxi where
  "sample_pxi =
     \<lparr>BC_WJ = 22, BC_GL = 4, BC_SP = 39, BC_CM = 21, BC_CB = 32, BC_CL = 1, BC_CP = 2,
      BC_H2 = 23, BC_H3 = 24, BC_ID = 14, BC_JL = 25, BC_JV = 26, BC_JT = 27, BC_AL = 12,
      BC_XX = 40, BC_PITCH = 29,
      break_western = (\<lambda>c. if c = 0 then 21 else if c = 32 then 39 else 12),
      break_cjk_loose = (\<lambda>c. if c = 0 then 21 else if c = 32 then 39 else 12),
      break_cjk_normal = (\<lambda>c. if c = 0 then 21 else if c = 32 then 39 else 12),
      break_cjk_strict = (\<lambda>c. if c = 0 then 21 else if c = 32 then 39 else 12),
      break_rules = (\<lambda>k. 37),
      break_tailor = (\<lambda>c. 40)\<rparr>"

subsection \<open>Layout\<close>

text \<open>
  The glyphs that take part in the layout of a line: the loops of the line breaker and
  of the justification skip ruby-top and ruby-alt glyphs.
\<close>

definition counted :: "Glyph \<Rightarrow> bool" where
  "counted g = (ruby g \<noteq> RUBY_TOP \<and> ruby g \<noteq> RUBY_ALT)"

text \<open>A space that the justification counts.\<close>

definition is_space :: "Glyph \<Rightarrow> bool" where
  "is_space g = (counted g \<and> character g = 32)"

text \<open>The ink width that \<open>align_and_justify\<close> measures on a line (its \<open>max_x\<close>).\<close>

definition ink_width :: "Line \<Rightarrow> int" where
  "ink_width l = snd (measure_line (glyphs l))"

text \<open>A glyph moved to the right by \<open>d\<close>, unless it is ruby-top or ruby-alt.\<close>

definition moved_by :: "int \<Rightarrow> Glyph \<Rightarrow> Glyph" where
  "moved_by d g = (if counted g then g\<lparr>x := x g + d\<rparr> else g)"

text \<open>A placed glyph: code point, x position, width (its advance the same) and ruby role.\<close>

definition placed_glyph :: "nat \<Rightarrow> int \<Rightarrow> real \<Rightarrow> ruby_t \<Rightarrow> Glyph" where
  "placed_glyph c xpos w r = glyph0\<lparr>character := c, x := xpos, width := w, advance := w, ruby := r\<rparr>"

text \<open>
  Two lines with one space each. The first has a ruby-top glyph behind the space and
  ink width 25; the second has ink width 35.
\<close>

definition justify_lines :: "Line list" where
  "justify_lines =
     [line0\<lparr>glyphs := [placed_glyph 97 0 10 RUBY_NONE, placed_glyph 32 10 5 RUBY_NONE,
                        placed_glyph 98 15 10 RUBY_NONE, placed_glyph 114 15 5 RUBY_TOP]\<rparr>,
      line0\<lparr>glyphs := [placed_glyph 97 0 10 RUBY_NONE, placed_glyph 32 10 5 RUBY_NONE,
                        placed_glyph 98 15 20 RUBY_NONE]\<rparr>]"

subsection \<open>Markup faults\<close>

datatype markup_fault = EmptyTag | OpenTag

lemma after_dropWhile_shorter:
  "dropWhile P s = b # d # rest \<Longrightarrow> length rest < length s"
proof -
  assume "dropWhile P s = b # d # rest"
  then have "length (b # d # rest) \<le> length s"
    by (metis length_dropWhile_le)
  then show ?thesis by simp
qed

lemma after_tag_shorter:
  "dropWhile P s = b # d # rest \<Longrightarrow> length (tl (dropWhile Q rest)) < length s"
proof -
  assume "dropWhile P s = b # d # rest"
  then have "length rest < length s" by (rule after_dropWhile_shorter)
  moreover have "length (dropWhile Q rest) \<le> length rest" by (rule length_dropWhile_le)
  ultimately show ?thesis by simp
qed

text \<open>
  The fault of a marked-up string, read off the string itself. Look for the first left
  brace. If there is none, there is no fault. A brace that ends the input opens a tag that
  is never closed. Two braces are an escaped brace, and the search goes on behind them.
  A brace followed by a right brace is an empty tag. Any other character starts a tag,
  which runs up to the next right brace: the search goes on behind that brace, and when
  there is none the tag is never closed.
\<close>

function find_fault :: "unicode \<Rightarrow> markup_fault option" where
  "find_fault s =
     (case dropWhile (\<lambda>c. c \<noteq> LBRACE) s of
        [] \<Rightarrow> None
      | [b] \<Rightarrow> Some OpenTag
      | b # d # rest \<Rightarrow>
          if d = LBRACE then find_fault rest
          else if d = RBRACE then Some EmptyTag
          else if RBRACE \<in> set rest
            then find_fault (tl (dropWhile (\<lambda>c. c \<noteq> RBRACE) rest))
          else Some OpenTag)"
  by pat_completeness auto
termination
  by (relation "measure length")
     (auto intro: after_dropWhile_shorter after_tag_shorter simp del: length_tl simp flip: length_tl)

declare find_fault.simps [simp del]

text \<open>The error that is raised for a fault; it quotes the whole input.\<close>

definition fault_error :: "unicode \<Rightarrow> error option" where
  "fault_error s =
     (case find_fault s of
        None \<Rightarrow> None
      | Some EmptyTag \<Rightarrow> Some (EmptyTextTag s)
      | Some OpenTag \<Rightarrow> Some (OpenTextTag s))"

text \<open>What the loop, started in the text state, ends with.\<close>

definition loop_agrees ::
  "unicode \<Rightarrow> error + (tok_state \<times> unicode \<times> token list) \<Rightarrow> markup_fault option \<Rightarrow> bool" where
  "loop_agrees s res f =
     (case f of
        None \<Rightarrow> (\<exists>buf rv. res = Inr (TEXT_STATE, buf, rv))
      | Some EmptyTag \<Rightarrow> res = Inl (EmptyTextTag s)
      | Some OpenTag \<Rightarrow> (\<exists>st buf rv. res = Inr (st, buf, rv) \<and> st \<noteq> TEXT_STATE))"

subsection \<open>Greedy line breaking\<close>

text \<open>
  What \<open>linebreak_greedy\<close> may do to a glyph: leave it as it is, or set its split
  class to \<open>SPLIT_NONE\<close> and change nothing else.
\<close>

definition demoted :: "Glyph \<Rightarrow> Glyph \<Rightarrow> bool" where
  "demoted g g' = (g' = g \<or> g' = g\<lparr>split := SPLIT_NONE\<rparr>)"

text \<open>
  The glyphs of \<open>a b))) c\<close>; the last glyph has the advance 10 and every other
  glyph the advance 5. The two spaces are split-instead candidates and the three closing
  brackets are split-ignore glyphs. With a width of 20 a break at the first space would
  leave \<open>b)))\<close>, of advance 20, on the second line.
\<close>

definition hanging_example :: "Glyph list" where
  "hanging_example =
     [mk_glyph 97 SPLIT_NONE 5, mk_glyph 32 SPLIT_INSTEAD 5, mk_glyph 98 SPLIT_NONE 5,
      mk_glyph 41 SPLIT_IGNORE 5, mk_glyph 41 SPLIT_IGNORE 5, mk_glyph 41 SPLIT_IGNORE 5,
      mk_glyph 32 SPLIT_INSTEAD 5, mk_glyph 99 SPLIT_NONE 10]"

text \<open>
  Five glyphs whose advance is the float nearest to 5.4, the second a space that is a
  split-instead candidate. The float sum of the five advances is 27, and their
  accumulated advance is \<open>27 + 1 / 2 ^ 21\<close>.
\<close>

definition rounding_example :: "Glyph list" where
  "rounding_example =
     [mk_glyph 97 SPLIT_NONE (11324621 / 2097152), mk_glyph 32 SPLIT_INSTEAD (11324621 / 2097152),
      mk_glyph 98 SPLIT_NONE (11324621 / 2097152), mk_glyph 99 SPLIT_NONE (11324621 / 2097152),
      mk_glyph 100 SPLIT_NONE (11324621 / 2097152)]"

subsection \<open>Lines of a broken glyph list\<close>

text \<open>
  A glyph at which the greedy breaker may break, or has broken: a counted glyph whose
  split class is split-instead or split-before.
\<close>

definition is_break :: "Glyph \<Rightarrow> bool" where
  "is_break g = (counted g \<and> (split g = SPLIT_INSTEAD \<or> split g = SPLIT_BEFORE))"

text \<open>
  A glyph that the overflow test of the loop never looks at: a ruby-top or ruby-alt glyph
  (skipped) or a split-ignore glyph (its advance is put aside).
\<close>

definition hanging :: "Glyph \<Rightarrow> bool" where
  "hanging g = (\<not> counted g \<or> split g = SPLIT_IGNORE)"

text \<open>
  The accumulated advance of a run of glyphs: ruby-top and ruby-alt glyphs count nothing.
\<close>

definition total_advance :: "Glyph list \<Rightarrow> real" where
  "total_advance seg = sum_list (map advance (filter counted seg))"

text \<open>
  The accumulated advance of a run of glyphs without the hanging glyphs at its end.
\<close>

definition measured_advance :: "Glyph list \<Rightarrow> real" where
  "measured_advance seg = total_advance (rev (dropWhile hanging (rev seg)))"

text \<open>
  The glyphs at positions \<open>a..b-1\<close> (Python's \<open>gl[a:b]\<close> for \<open>a \<le> b\<close>).
\<close>

definition slice :: "Glyph list \<Rightarrow> nat \<Rightarrow> nat \<Rightarrow> Glyph list" where
  "slice gl a b = take (b - a) (drop a gl)"

text \<open>
  The accumulated advance of every run of consecutive glyphs of the list is a finite
  binary32 value. Then the sums of the greedy loop do not round.
\<close>

definition exact_sums :: "Glyph list \<Rightarrow> bool" where
  "exact_sums gl =
     (\<forall>a b. a \<le> b \<and> b \<le> length gl \<longrightarrow> is_f32 (total_advance (slice gl a b)))"

text \<open>
  Position \<open>k\<close> of the list \<open>H\<close> holds a break glyph.
\<close>

definition break_at :: "Glyph list \<Rightarrow> nat \<Rightarrow> bool" where
  "break_at H k = (k < length H \<and> is_break (H ! k))"

text \<open>
  The positions \<open>a..b-1\<close> are a line of the broken list \<open>H\<close>. A line starts at 0,
  behind a split-instead break (the marker belongs to no line) or at a split-before break
  (the glyph starts the line); it ends at the next break or at the end of the list, and
  a split-instead break is never the first glyph of a line that has glyphs. This is how
  \<open>linebreak_list\<close> and the placement functions cut the list into lines.
\<close>

definition is_line :: "Glyph list \<Rightarrow> nat \<Rightarrow> nat \<Rightarrow> bool" where
  "is_line H a b =
     (a \<le> b \<and> b \<le> length H
      \<and> (a = 0 \<or> (0 < a \<and> break_at H (a - 1) \<and> split (H ! (a - 1)) = SPLIT_INSTEAD)
          \<or> (break_at H a \<and> split (H ! a) = SPLIT_BEFORE))
      \<and> (b = length H \<or> break_at H b)
      \<and> (\<forall>k\<in>{a<..<b}. \<not> break_at H k)
      \<and> \<not> (a < b \<and> break_at H a \<and> split (H ! a) = SPLIT_INSTEAD))"

text \<open>
  The width budget of a line: the first width for the line that starts the list (and does
  not start with a break), the rest width for every other line.
\<close>

definition line_budget :: "Glyph list \<Rightarrow> int \<Rightarrow> int \<Rightarrow> nat \<Rightarrow> nat \<Rightarrow> real" where
  "line_budget H first_width rest_width a b =
     (if a = 0 \<and> \<not> (0 < b \<and> break_at H 0) then real_of_int first_width
      else real_of_int rest_width)"

text \<open>
  A split candidate existed on the line: a glyph of the line that was a break glyph in the
  list \<open>gl\<close> given to the breaker, other than the break that starts the line.
\<close>

definition candidate_on_line :: "Glyph list \<Rightarrow> Glyph list \<Rightarrow> nat \<Rightarrow> nat \<Rightarrow> bool" where
  "candidate_on_line gl H a b =
     (\<exists>k\<in>{a..<b}. is_break (gl ! k) \<and> \<not> (k = a \<and> break_at H a))"

subsection \<open>The invariant of the greedy loop\<close>

text \<open>
  The notions of the previous subsection over a predicate \<open>cb\<close> that says at which
  positions a break is committed (\<open>a_instead\<close>, \<open>a_start\<close>, \<open>a_span\<close>,
  \<open>a_cand\<close>, \<open>a_budget\<close>); the start \<open>nxt\<close> of the line behind a break; the
  breaks committed before iteration \<open>i\<close>, which are the break glyphs but the pending
  candidate; the two halves of a loop iteration with sums that do not round
  (\<open>greedy_commit\<close>, the body of the overflow test, and \<open>greedy_add\<close>, the rest)
  and the iteration made of them (\<open>exact_step\<close>, which the loop body is shown to
  agree with when the sums are binary32 values); and the parts of the invariant that
  holds before iteration \<open>i\<close>, where \<open>L\<close> is the start of the current line.
\<close>

definition a_instead :: "Glyph list \<Rightarrow> (nat \<Rightarrow> bool) \<Rightarrow> nat \<Rightarrow> bool" where
  "a_instead gl cb k = (cb k \<and> split (gl ! k) = SPLIT_INSTEAD)"

definition a_start :: "Glyph list \<Rightarrow> (nat \<Rightarrow> bool) \<Rightarrow> nat \<Rightarrow> bool" where
  "a_start gl cb a =
     (a = 0 \<or> (0 < a \<and> a_instead gl cb (a - 1)) \<or> (cb a \<and> split (gl ! a) \<noteq> SPLIT_INSTEAD))"

definition a_span :: "Glyph list \<Rightarrow> (nat \<Rightarrow> bool) \<Rightarrow> nat \<Rightarrow> nat \<Rightarrow> bool" where
  "a_span gl cb a b =
     (a \<le> b \<and> a_start gl cb a \<and> (\<forall>k. a < k \<and> k < b \<longrightarrow> \<not> cb k)
      \<and> \<not> (a < b \<and> a_instead gl cb a))"

definition a_cand :: "Glyph list \<Rightarrow> (nat \<Rightarrow> bool) \<Rightarrow> nat \<Rightarrow> nat \<Rightarrow> bool" where
  "a_cand gl cb a b = (\<exists>k. a \<le> k \<and> k < b \<and> is_break (gl ! k) \<and> \<not> (k = a \<and> cb a))"

definition a_budget :: "(nat \<Rightarrow> bool) \<Rightarrow> int \<Rightarrow> int \<Rightarrow> nat \<Rightarrow> nat \<Rightarrow> real" where
  "a_budget cb fw rw a b =
     (if a = 0 \<and> \<not> (0 < b \<and> cb 0) then real_of_int fw else real_of_int rw)"

definition nxt :: "Glyph list \<Rightarrow> nat \<Rightarrow> nat" where
  "nxt gl p = (if split (gl ! p) = SPLIT_INSTEAD then Suc p else p)"

definition committed :: "greedy_state \<Rightarrow> nat \<Rightarrow> nat \<Rightarrow> bool" where
  "committed st i k =
     (k < i \<and> k < length (lb_glyphs st) \<and> is_break (lb_glyphs st ! k) \<and> lb_split_g st \<noteq> Some k)"

definition greedy_commit :: "real \<Rightarrow> greedy_state \<Rightarrow> greedy_state" where
  "greedy_commit rw st = st\<lparr>lb_x := lb_splitx st, lb_split_g := None, lb_width := rw\<rparr>"

definition greedy_add :: "nat \<Rightarrow> greedy_state \<Rightarrow> greedy_state" where
  "greedy_add i st =
     (let g = lb_glyphs st ! i;
          st2 = st\<lparr>lb_x := lb_x st + (advance g + lb_ignored st),
                    lb_splitx := lb_splitx st + (advance g + lb_ignored st),
                    lb_ignored := 0\<rparr>
      in if split g = SPLIT_INSTEAD then
           st2\<lparr>lb_glyphs := demote (lb_split_g st2) (lb_glyphs st2),
               lb_split_g := Some i, lb_splitx := 0\<rparr>
         else if split g = SPLIT_BEFORE then
           st2\<lparr>lb_glyphs := demote (lb_split_g st2) (lb_glyphs st2),
               lb_split_g := Some i, lb_splitx := advance g\<rparr>
         else st2)"

definition exact_step :: "real \<Rightarrow> nat \<Rightarrow> greedy_state \<Rightarrow> greedy_state" where
  "exact_step rw i st =
     (let g = lb_glyphs st ! i in
      if \<not> counted g then st
      else if split g = SPLIT_IGNORE then st\<lparr>lb_ignored := lb_ignored st + advance g\<rparr>
      else greedy_add i (if lb_x st > lb_width st \<and> lb_split_g st \<noteq> None
                         then greedy_commit rw st else st))"

definition inv_frame :: "Glyph list \<Rightarrow> nat \<Rightarrow> greedy_state \<Rightarrow> bool" where
  "inv_frame gl i st =
     (i \<le> length gl \<and> list_all2 demoted gl (lb_glyphs st)
      \<and> (\<forall>k. i \<le> k \<and> k < length gl \<longrightarrow> lb_glyphs st ! k = gl ! k))"

definition inv_line :: "Glyph list \<Rightarrow> (nat \<Rightarrow> bool) \<Rightarrow> nat \<Rightarrow> nat \<Rightarrow> bool" where
  "inv_line gl cb i L =
     (L \<le> i \<and> a_start gl cb L \<and> (\<forall>k. L < k \<longrightarrow> \<not> cb k) \<and> \<not> a_instead gl cb L)"

definition inv_x :: "Glyph list \<Rightarrow> nat \<Rightarrow> nat \<Rightarrow> real \<Rightarrow> real \<Rightarrow> bool" where
  "inv_x gl a i m ig =
     (m = measured_advance (slice gl a i) \<and> m + ig = total_advance (slice gl a i))"

definition inv_width :: "(nat \<Rightarrow> bool) \<Rightarrow> int \<Rightarrow> int \<Rightarrow> greedy_state \<Rightarrow> nat \<Rightarrow> bool" where
  "inv_width cb fw rw st L =
     (lb_width st = (if L = 0 \<and> \<not> cb 0 then real_of_int fw else real_of_int rw))"

definition inv_pending ::
  "Glyph list \<Rightarrow> (nat \<Rightarrow> bool) \<Rightarrow> nat \<Rightarrow> greedy_state \<Rightarrow> nat \<Rightarrow> bool" where
  "inv_pending gl cb i st L =
     (case lb_split_g st of
        None \<Rightarrow> \<not> a_cand gl cb L i
      | Some p \<Rightarrow>
          p < i \<and> L \<le> p \<and> is_break (gl ! p) \<and> lb_glyphs st ! p = gl ! p
          \<and> (\<forall>k. p < k \<and> k < i \<longrightarrow> \<not> is_break (gl ! k))
          \<and> inv_x gl (nxt gl p) i (lb_splitx st) (lb_ignored st)
          \<and> (a_cand gl cb L p \<longrightarrow> measured_advance (slice gl L p) \<le> lb_width st))"

definition inv_done :: "Glyph list \<Rightarrow> (nat \<Rightarrow> bool) \<Rightarrow> int \<Rightarrow> int \<Rightarrow> bool" where
  "inv_done gl cb fw rw =
     (\<forall>a b. cb b \<and> a_span gl cb a b \<and> a_cand gl cb a b \<longrightarrow>
        measured_advance (slice gl a b) \<le> a_budget cb fw rw a b)"

definition greedy_inv ::
  "Glyph list \<Rightarrow> int \<Rightarrow> int \<Rightarrow> nat \<Rightarrow> greedy_state \<Rightarrow> nat \<Rightarrow> bool" where
  "greedy_inv gl fw rw i st L =
     (inv_frame gl i st
      \<and> inv_line gl (committed st i) i L
      \<and> inv_x gl L i (lb_x st) (lb_ignored st)
      \<and> inv_width (committed st i) fw rw st L
      \<and> inv_pending gl (committed st i) i st L
      \<and> inv_done gl (committed st i) fw rw)"

subsection \<open>Timing\<close>



text \<open>The reveal times of the glyphs of the first \<open>n\<close> lines.\<close>

definition times_upto :: "Line list \<Rightarrow> nat \<Rightarrow> real set" where
  "times_upto ls n = time ` set (concat (map glyphs (take n ls)))"

definition two_lines :: "Line list" where
  "two_lines = [line0\<lparr>glyphs := [glyph0\<lparr>time := 2\<rparr>]\<rparr>, line0\<lparr>glyphs := [glyph0\<lparr>time := 1\<rparr>]\<rparr>]"

subsection \<open>Blocks of a glyph list\<close>

text \<open>
  A glyph list cut at its split-instead glyphs: the blocks that end with such a marker,
  each paired with its marker, and the last block, which has none.
\<close>

fun split_at_markers :: "Glyph list \<Rightarrow> (Glyph list \<times> Glyph) list \<times> Glyph list" where
  "split_at_markers [] = ([], [])"
| "split_at_markers (g # gl) =
     (case split_at_markers gl of
        (bms, lst) \<Rightarrow>
          if split g = SPLIT_INSTEAD then (([], g) # bms, lst)
          else (case bms of
                  [] \<Rightarrow> ([], g # lst)
                | (b, m) # bms' \<Rightarrow> ((g # b, m) # bms', lst)))"

definition mark_rtl :: "Glyph \<Rightarrow> Glyph" where
  "mark_rtl g = g\<lparr>rtl := True\<rparr>"

text \<open>The blocks put back in order, each followed by its marker.\<close>

definition join_blocks :: "(Glyph list \<times> Glyph) list \<times> Glyph list \<Rightarrow> Glyph list" where
  "join_blocks p = concat (map (\<lambda>(b, m). b @ [m]) (fst p)) @ snd p"

text \<open>Every block reversed and its glyphs marked right-to-left; the markers as they are.\<close>

definition reverse_blocks ::
  "(Glyph list \<times> Glyph) list \<times> Glyph list \<Rightarrow> (Glyph list \<times> Glyph) list \<times> Glyph list" where
  "reverse_blocks p =
     (map (\<lambda>(b, m). (rev (map mark_rtl b), m)) (fst p), rev (map mark_rtl (snd p)))"

section \<open>Results about the rounding\<close>

lemma round_half_even_int [simp]: "round_half_even (of_int k) = k"
  by (simp add: round_half_even_def)

lemma expo_up_low: "a < 2 powi (e0 + 1) \<Longrightarrow> expo_up n e0 a = e0"
  by (cases n) simp_all

lemma expo_up_find:
  "e0 \<le> e \<Longrightarrow> e - e0 \<le> int n \<Longrightarrow> 2 powi e \<le> a \<Longrightarrow> a < 2 powi (e + 1) \<Longrightarrow>
   expo_up n e0 a = e"
proof (induction n arbitrary: e0)
  case 0
  then show ?case by simp
next
  case (Suc n)
  show ?case
  proof (cases "e0 = e")
    case True
    then show ?thesis using Suc.prems by simp
  next
    case False
    then have lt: "e0 + 1 \<le> e" using Suc.prems by simp
    have "(2::real) powi (e0 + 1) \<le> 2 powi e"
      using lt by (intro power_int_increasing) simp_all
    then have "2 powi (e0 + 1) \<le> a" using Suc.prems by simp
    moreover have "expo_up n (e0 + 1) a = e"
      using Suc.prems lt by (intro Suc.IH) simp_all
    ultimately show ?thesis by simp
  qed
qed

lemma fround_at:
  assumes "emin \<le> e" and "e \<le> emax" and "2 powi e \<le> \<bar>r\<bar>" and "\<bar>r\<bar> < 2 powi (e + 1)"
  shows "fround p emin emax r =
           2 powi (e - int p + 1) * of_int (round_half_even (r / 2 powi (e - int p + 1)))"
proof -
  have "expo_up (nat (emax - emin)) emin \<bar>r\<bar> = e"
    using assms by (intro expo_up_find) simp_all
  then show ?thesis by (simp add: fround_def Let_def)
qed

lemma fround_low:
  assumes "\<bar>r\<bar> < 2 powi (emin + 1)"
  shows "fround p emin emax r =
           2 powi (emin - int p + 1) * of_int (round_half_even (r / 2 powi (emin - int p + 1)))"
  using expo_up_low [OF assms] by (simp add: fround_def Let_def)

lemma nat_exponent:
  assumes "0 < (k::nat)"
  shows "\<exists>n. 2 ^ n \<le> k \<and> k < 2 ^ (n + 1)"
  using ex_power_ivl1 [of 2 k] assms by simp

lemma fround_dyadic:
  assumes k: "\<bar>k\<bar> < 2 ^ p" and q: "emin - int p + 1 \<le> q"
    and top: "\<bar>of_int k * 2 powi q\<bar> < (2::real) powi (emax + 1)" and p: "0 < p"
  shows "fround p emin emax (of_int k * 2 powi q) = of_int k * 2 powi q"
proof (cases "k = 0")
  case True
  then show ?thesis using round_half_even_int [of 0] by (simp add: fround_def Let_def)
next
  case False
  let ?r = "real_of_int k * 2 powi q"
  obtain n where n: "2 ^ n \<le> nat \<bar>k\<bar>" "nat \<bar>k\<bar> < 2 ^ (n + 1)"
    using nat_exponent [of "nat \<bar>k\<bar>"] False by auto
  have ilo: "(2::int) ^ n \<le> \<bar>k\<bar>"
  proof -
    have "int (2 ^ n) \<le> int (nat \<bar>k\<bar>)" using n(1) by (simp only: of_nat_le_iff)
    then show ?thesis by simp
  qed
  have ihi: "\<bar>k\<bar> < (2::int) ^ (n + 1)"
  proof -
    have "int (nat \<bar>k\<bar>) < int (2 ^ (n + 1))" using n(2) by (simp only: of_nat_less_iff)
    then show ?thesis by simp
  qed
  have np: "n < p"
  proof (rule ccontr)
    assume "\<not> n < p"
    then have "(2::int) ^ p \<le> 2 ^ n" by (intro power_increasing) simp_all
    then show False using ilo k by linarith
  qed
  have absr: "\<bar>?r\<bar> = real_of_int \<bar>k\<bar> * 2 powi q" by (simp add: abs_mult)
  have lo: "(2::real) ^ n \<le> real_of_int \<bar>k\<bar>"
  proof -
    have "real_of_int (2 ^ n) \<le> real_of_int \<bar>k\<bar>" using ilo by (simp only: of_int_le_iff)
    then show ?thesis by simp
  qed
  have hi: "real_of_int \<bar>k\<bar> < 2 ^ (n + 1)"
  proof -
    have "real_of_int \<bar>k\<bar> < real_of_int (2 ^ (n + 1))" using ihi by (simp only: of_int_less_iff)
    then show ?thesis by simp
  qed
  let ?e = "int n + q"
  have pw: "(2::real) powi ?e = 2 ^ n * 2 powi q"
    by (simp add: power_int_add)
  have pw1: "(2::real) powi (?e + 1) = 2 ^ (n + 1) * 2 powi q"
    by (simp add: power_int_add)
  have elo: "2 powi ?e \<le> \<bar>?r\<bar>"
    unfolding pw absr using lo by (intro mult_right_mono) simp_all
  have ehi: "\<bar>?r\<bar> < 2 powi (?e + 1)"
    unfolding pw1 absr using hi by (intro mult_strict_right_mono) simp_all
  have integral: "\<exists>m. ?r / 2 powi u = of_int m" if "u \<le> q" for u
  proof -
    have "(2::real) powi q = 2 powi u * 2 powi (q - u)"
      by (simp flip: power_int_add)
    also have "2 powi (q - u) = (2::real) ^ nat (q - u)"
      using that by (simp add: power_int_def)
    finally have "?r / 2 powi u = real_of_int k * 2 ^ nat (q - u)" by simp
    also have "\<dots> = of_int (k * 2 ^ nat (q - u))" by simp
    finally show ?thesis by blast
  qed
  have fixed: "2 powi u * of_int (round_half_even (?r / 2 powi u)) = ?r" if uq: "u \<le> q" for u
  proof -
    obtain m where m: "?r / 2 powi u = of_int m" using integral [OF uq] by blast
    have "2 powi u * of_int (round_half_even (?r / 2 powi u)) = 2 powi u * (?r / 2 powi u)"
      unfolding m by simp
    then show ?thesis by simp
  qed
  show ?thesis
  proof (cases "emin \<le> ?e")
    case True
    have lt: "2 powi ?e < (2::real) powi (emax + 1)" using elo top by simp
    have "?e < emax + 1"
    proof (rule ccontr)
      assume "\<not> ?e < emax + 1"
      then have "(2::real) powi (emax + 1) \<le> 2 powi ?e"
        by (intro power_int_increasing) simp_all
      then show False using lt by simp
    qed
    then have le: "?e \<le> emax" by simp
    have u: "?e - int p + 1 \<le> q" using np by simp
    show ?thesis
      unfolding fround_at [OF True le elo ehi] by (rule fixed [OF u])
  next
    case False
    then have "?e + 1 \<le> emin + 1" by simp
    then have "(2::real) powi (?e + 1) \<le> 2 powi (emin + 1)"
      by (intro power_int_increasing) simp_all
    then have low: "\<bar>?r\<bar> < 2 powi (emin + 1)" using ehi by simp
    show ?thesis
      unfolding fround_low [OF low] by (rule fixed [OF q])
  qed
qed



lemma f32_int: "\<bar>k\<bar> < 2 ^ 24 \<Longrightarrow> f32 (of_int k) = of_int k"
proof -
  assume k: "\<bar>k\<bar> < 2 ^ 24"
  have "real_of_int \<bar>k\<bar> < real_of_int (2 ^ 24)" using k by (simp only: of_int_less_iff)
  then have "real_of_int \<bar>k\<bar> < 2 powi 128" by simp
  then have "fround 24 (- 126) 127 (of_int k * 2 powi 0) = of_int k * 2 powi 0"
    using k by (intro fround_dyadic) simp_all
  then show ?thesis by (simp add: f32_def)
qed

lemma f32_half_int: "\<bar>k\<bar> < 2 ^ 24 \<Longrightarrow> f32 (of_int k / 2) = of_int k / 2"
proof -
  assume k: "\<bar>k\<bar> < 2 ^ 24"
  have "real_of_int \<bar>k\<bar> < real_of_int (2 ^ 24)" using k by (simp only: of_int_less_iff)
  then have "\<bar>real_of_int k * 2 powi (- 1)\<bar> < 2 powi 128" by (simp add: abs_mult)
  then have "fround 24 (- 126) 127 (of_int k * 2 powi (- 1)) = of_int k * 2 powi (- 1)"
    using k by (intro fround_dyadic) simp_all
  then show ?thesis by (simp add: f32_def)
qed

lemma f64_int: "\<bar>k\<bar> < 2 ^ 53 \<Longrightarrow> f64 (of_int k) = of_int k"
proof -
  assume k: "\<bar>k\<bar> < 2 ^ 53"
  have "real_of_int \<bar>k\<bar> < real_of_int (2 ^ 53)" using k by (simp only: of_int_less_iff)
  then have "real_of_int \<bar>k\<bar> < 2 powi 1024" by simp
  then have "fround 53 (- 1022) 1023 (of_int k * 2 powi 0) = of_int k * 2 powi 0"
    using k by (intro fround_dyadic) simp_all
  then show ?thesis by (simp add: f64_def)
qed

lemma f32_zero [simp]: "f32 0 = 0"
  using f32_int [of 0] by simp

lemma f32_numeral [simp]: "numeral n < (16777216::int) \<Longrightarrow> f32 (numeral n) = numeral n"
  using f32_int [of "numeral n"] by simp

lemma f32_neg_numeral [simp]:
  "numeral n < (16777216::int) \<Longrightarrow> f32 (- numeral n) = - numeral n"
  using f32_int [of "- numeral n"] by simp

lemma f32_one [simp]: "f32 1 = 1"
  using f32_int [of 1] by simp

lemma f64_one [simp]: "f64 1 = 1"
  using f64_int [of 1] by simp

lemma is_f32_int: "\<bar>k\<bar> < 2 ^ 24 \<Longrightarrow> is_f32 (of_int k)"
proof -
  assume k: "\<bar>k\<bar> < 2 ^ 24"
  have "real_of_int \<bar>k\<bar> < real_of_int (2 ^ 24)" using k by (simp only: of_int_less_iff)
  then have "\<bar>real_of_int k\<bar> < 2 ^ 128" by simp
  then show ?thesis using f32_int [OF k] by (simp add: is_f32_def)
qed



section \<open>Results about the tokenizer\<close>

text \<open>
  C3 (as amended). For every non-empty string that contains none of the left brace, the
  newline and the left lenticular bracket, tokenize returns exactly one entry, the
  TEXT run holding the whole input. (The empty string is returned as the empty list.)
\<close>

theorem tokenize_plain_text:
  assumes "s \<noteq> []" and "LBRACE \<notin> set s" and "NEWLINE \<notin> set s" and "LENT_LEFT \<notin> set s"
  shows "tokenize cfg s = Inr [(TEXT, s)]"
  using assms by (simp add: tokenize_def)

theorem tokenize_plain_text_witness:
  "tokenize True (ustr ''abc'') = Inr [(TEXT, ustr ''abc'')]"
  using tokenize_plain_text [of "ustr ''abc''" True]
  by (simp add: ustr_def LBRACE_def NEWLINE_def LENT_LEFT_def)

theorem tokenize_plain_text_counterexample:
  "LBRACE \<notin> set ([]::unicode) \<and> NEWLINE \<notin> set ([]::unicode) \<and> LENT_LEFT \<notin> set ([]::unicode)
   \<and> tokenize True [] = Inr [] \<and> tokenize True [] \<noteq> Inr [(TEXT, [])]"
  by (simp add: tokenize_def)

section \<open>Results about linebreak_nobreak and linebreak_list\<close>

lemma linebreak_list_loop_nobreak:
  "\<forall>g\<in>set gl. character g < 1114112 \<Longrightarrow>
   linebreak_list_loop (linebreak_nobreak gl) rv line = Inr (rv, line @ map character gl)"
  by (induction gl arbitrary: line) (simp_all add: linebreak_nobreak_def chr_py_def)

text \<open>
  C6 (as amended). For every non-empty glyph list whose characters are code points
  (below 0x110000, so that \<open>chr\<close> does not raise), \<open>linebreak_nobreak\<close> followed by
  \<open>linebreak_list\<close> returns the one-element list holding the characters of all the
  glyphs, in order. (For the empty glyph list the result is the empty list.)
\<close>

theorem nobreak_then_list:
  assumes "gl \<noteq> []" and "\<forall>g\<in>set gl. character g < 1114112"
  shows "linebreak_list (linebreak_nobreak gl) = Inr [map character gl]"
  using assms by (simp add: linebreak_list_def linebreak_list_loop_nobreak)

theorem nobreak_then_list_witness:
  "linebreak_list (linebreak_nobreak
     [mk_glyph 97 SPLIT_BEFORE 10, mk_glyph 32 SPLIT_INSTEAD 5, mk_glyph 98 SPLIT_NONE 10])
     = Inr [[97, 32, 98]]"
  using nobreak_then_list
    [of "[mk_glyph 97 SPLIT_BEFORE 10, mk_glyph 32 SPLIT_INSTEAD 5, mk_glyph 98 SPLIT_NONE 10]"]
  by (simp add: mk_glyph_def glyph0_def)

theorem nobreak_then_list_counterexample:
  "linebreak_list (linebreak_nobreak []) = Inr []
   \<and> linebreak_list (linebreak_nobreak []) \<noteq> Inr [map character []]"
  by (simp add: linebreak_list_def linebreak_nobreak_def)

section \<open>Results about reverse_lines\<close>

lemma join_split: "join_blocks (split_at_markers gl) = gl"
  by (induction gl) (auto simp: join_blocks_def split: prod.splits list.splits)

lemma split_blocks_ok:
  "\<forall>(b, m)\<in>set (fst (split_at_markers gl)).
     split m = SPLIT_INSTEAD \<and> (\<forall>g\<in>set b. split g \<noteq> SPLIT_INSTEAD)"
  by (induction gl) (auto split: prod.splits list.splits)

lemma split_last_ok:
  "\<forall>g\<in>set (snd (split_at_markers gl)). split g \<noteq> SPLIT_INSTEAD"
  by (induction gl) (auto split: prod.splits list.splits)

lemma reverse_lines_loop_blocks:
  "reverse_lines_loop gl rv block =
     (case split_at_markers gl of
        ([], lst) \<Rightarrow> rv @ rev (block @ map mark_rtl lst)
      | ((b, m) # bms, lst) \<Rightarrow>
          rv @ rev (block @ map mark_rtl b) @ [m] @ join_blocks (reverse_blocks (bms, lst)))"
proof (induction gl arbitrary: rv block)
  case Nil
  show ?case by simp
next
  case (Cons g gl)
  show ?case
    by (simp add: Cons.IH join_blocks_def reverse_blocks_def mark_rtl_def
        split: prod.splits list.splits)
qed

lemma reverse_lines_blocks:
  "reverse_lines gl = join_blocks (reverse_blocks (split_at_markers gl))"
  by (simp add: reverse_lines_def reverse_lines_loop_blocks join_blocks_def reverse_blocks_def
      split: prod.splits list.splits)

text \<open>
  C8. Cut the glyph list at its split-instead glyphs into blocks (the lines), each block
  followed by its marker: the blocks, joined, are the list; no glyph inside a block is
  a split-instead glyph and every marker is one. Then \<open>reverse_lines\<close> returns the
  same blocks in the same order, each one reversed with the right-to-left flag of its
  glyphs set, and each marker, unchanged, still behind its block.
\<close>

theorem reverse_lines_blockwise:
  "join_blocks (split_at_markers gl) = gl
   \<and> (\<forall>(b, m)\<in>set (fst (split_at_markers gl)).
         split m = SPLIT_INSTEAD \<and> (\<forall>g\<in>set b. split g \<noteq> SPLIT_INSTEAD))
   \<and> (\<forall>g\<in>set (snd (split_at_markers gl)). split g \<noteq> SPLIT_INSTEAD)
   \<and> reverse_lines gl = join_blocks (reverse_blocks (split_at_markers gl))"
  using join_split [of gl] split_blocks_ok [of gl] split_last_ok [of gl]
    reverse_lines_blocks [of gl]
  by simp

theorem reverse_lines_blockwise_witness:
  "split_at_markers
     [mk_glyph 97 SPLIT_NONE 10, mk_glyph 98 SPLIT_NONE 10, mk_glyph 32 SPLIT_INSTEAD 5,
      mk_glyph 99 SPLIT_NONE 10]
     = ([([mk_glyph 97 SPLIT_NONE 10, mk_glyph 98 SPLIT_NONE 10], mk_glyph 32 SPLIT_INSTEAD 5)],
        [mk_glyph 99 SPLIT_NONE 10])
   \<and> reverse_lines
     [mk_glyph 97 SPLIT_NONE 10, mk_glyph 98 SPLIT_NONE 10, mk_glyph 32 SPLIT_INSTEAD 5,
      mk_glyph 99 SPLIT_NONE 10]
     = [(mk_glyph 98 SPLIT_NONE 10)\<lparr>rtl := True\<rparr>, (mk_glyph 97 SPLIT_NONE 10)\<lparr>rtl := True\<rparr>,
        mk_glyph 32 SPLIT_INSTEAD 5, (mk_glyph 99 SPLIT_NONE 10)\<lparr>rtl := True\<rparr>]"
  using reverse_lines_blockwise
    [of "[mk_glyph 97 SPLIT_NONE 10, mk_glyph 98 SPLIT_NONE 10, mk_glyph 32 SPLIT_INSTEAD 5,
          mk_glyph 99 SPLIT_NONE 10]"]
  by (simp add: mk_glyph_def glyph0_def join_blocks_def reverse_blocks_def mark_rtl_def)

section \<open>Results about assign_times\<close>












section \<open>Results about max_times\<close>

lemma max_time_glyphs_Max: "max_time_glyphs gl m = Max (insert m (time ` set gl))"
proof (induction gl arbitrary: m)
  case Nil
  show ?case by (simp add: max_time_glyphs_def)
next
  case (Cons g gl)
  have "max_time_glyphs (g # gl) m = max_time_glyphs gl (max m (time g))"
    by (simp add: max_time_glyphs_def max_def)
  also have "\<dots> = Max (insert (max m (time g)) (time ` set gl))"
    by (rule Cons.IH)
  also have "\<dots> = Max (insert m (time ` set (g # gl)))"
    by (cases "gl = []") (simp_all add: max.assoc)
  finally show ?case .
qed

lemma Max_insert_Max:
  assumes "finite A" and "finite B"
  shows "Max (insert (Max (insert m A)) B) = Max (insert m (A \<union> B))"
proof -
  have "Max (insert m (A \<union> B)) = Max (insert m A \<union> insert (Max (insert m A)) B)"
  proof (rule antisym)
    show "Max (insert m (A \<union> B)) \<le> Max (insert m A \<union> insert (Max (insert m A)) B)"
      using assms by (intro Max_mono) auto
    show "Max (insert m A \<union> insert (Max (insert m A)) B) \<le> Max (insert m (A \<union> B))"
      using assms by (auto intro!: Max.boundedI Max_ge simp: Max_le_iff)
  qed
  also have "\<dots> = max (Max (insert m A)) (Max (insert (Max (insert m A)) B))"
    using assms by (intro Max_Un) auto
  also have "\<dots> = Max (insert (Max (insert m A)) B)"
    using assms by (intro max.absorb2 Max_ge) auto
  finally show ?thesis by simp
qed

lemma max_times_loop_length: "length (snd (max_times_loop ls m)) = length ls"
  by (induction ls arbitrary: m) (simp_all add: case_prod_beta Let_def)

lemma max_times_loop_fst:
  "fst (max_times_loop ls m) = Max (insert m (times_upto ls (length ls)))"
proof (induction ls arbitrary: m)
  case Nil
  show ?case by (simp add: times_upto_def)
next
  case (Cons l ls)
  show ?case
    using Max_insert_Max [of "time ` set (glyphs l)" "times_upto ls (length ls)" m]
    by (simp add: case_prod_beta Let_def Cons.IH max_time_glyphs_Max times_upto_def image_Un)
qed

lemma max_times_loop_nth:
  "i < length ls \<Longrightarrow>
   snd (max_times_loop ls m) ! i = (ls ! i)\<lparr>max_time := Max (insert m (times_upto ls (Suc i)))\<rparr>"
proof (induction ls arbitrary: m i)
  case Nil
  then show ?case by simp
next
  case (Cons l ls)
  show ?case
  proof (cases i)
    case 0
    then show ?thesis
      by (simp add: case_prod_beta Let_def max_time_glyphs_Max times_upto_def)
  next
    case (Suc k)
    with Cons.prems have k: "k < length ls" by simp
    show ?thesis
      using Max_insert_Max [of "time ` set (glyphs l)" "times_upto ls (Suc k)" m] Suc
      by (simp add: case_prod_beta Let_def Cons.IH [OF k] max_time_glyphs_Max times_upto_def image_Un)
  qed
qed

text \<open>
  C2 (as amended). \<open>max_times\<close> keeps one running maximum, started at 0 and carried
  from line to line: the \<open>max_time\<close> of a line is the largest of 0 and the reveal
  times of the glyphs of that line and of all the lines before it, no other field of a
  line changes, and the value returned is the maximum over all the lines.
\<close>

theorem max_times_running_max:
  "fst (max_times ls) = Max (insert 0 (times_upto ls (length ls)))
   \<and> length (snd (max_times ls)) = length ls
   \<and> (\<forall>i<length ls.
         snd (max_times ls) ! i = (ls ! i)\<lparr>max_time := Max (insert 0 (times_upto ls (Suc i)))\<rparr>)"
  by (simp add: max_times_def max_times_loop_fst max_times_loop_length max_times_loop_nth)

theorem max_times_running_max_witness:
  "max_time (snd (max_times two_lines) ! 0) = 2 \<and> max_time (snd (max_times two_lines) ! 1) = 2
   \<and> fst (max_times two_lines) = 2"
proof -
  note h = max_times_running_max [of two_lines]
  have len: "length two_lines = 2" by (simp add: two_lines_def)
  from h have "\<forall>i<length two_lines.
      snd (max_times two_lines) ! i = (two_lines ! i)\<lparr>max_time := Max (insert 0 (times_upto two_lines (Suc i)))\<rparr>"
    by blast
  then have n: "snd (max_times two_lines) ! i = (two_lines ! i)\<lparr>max_time := Max (insert 0 (times_upto two_lines (Suc i)))\<rparr>"
    if "i < 2" for i using that len by simp
  have t1: "times_upto two_lines (Suc 0) = {2}"
    by (simp add: times_upto_def two_lines_def line0_def glyph0_def)
  have t2: "times_upto two_lines (Suc (Suc 0)) = {2, 1}"
    by (simp add: times_upto_def two_lines_def line0_def glyph0_def)
  have "length two_lines = 2" by (rule len)
  then have t3: "times_upto two_lines (length two_lines) = {2, 1}"
    by (simp add: times_upto_def two_lines_def line0_def glyph0_def)
  have "max_time (snd (max_times two_lines) ! 0) = 2" using n [of 0] by (simp add: t1)
  moreover have "max_time (snd (max_times two_lines) ! 1) = 2" using n [of 1] by (simp add: t2)
  moreover have "fst (max_times two_lines) = 2" using h by (simp add: t3)
  ultimately show ?thesis by simp
qed

theorem max_times_counterexample:
  "max_time (snd (max_times two_lines) ! 1) = 2 \<and> Max (time ` set (glyphs (two_lines ! 1))) = 1"
  by (simp add: max_times_def two_lines_def line0_def glyph0_def max_time_glyphs_def)

section \<open>Results about linebreak_greedy\<close>

lemma fold_upt_from_invariant:
  assumes "P m s0" and "m \<le> n"
    and "\<And>i s. m \<le> i \<Longrightarrow> i < n \<Longrightarrow> P i s \<Longrightarrow> P (Suc i) (f i s)"
  shows "P n (fold f [m..<n] s0)"
proof -
  have "m \<le> k \<Longrightarrow> k \<le> n \<Longrightarrow> P k (fold f [m..<k] s0)" for k
  proof (induction k)
    case 0
    then show ?case using assms(1) by simp
  next
    case (Suc k)
    show ?case
    proof (cases "m = Suc k")
      case True
      then show ?thesis using assms(1) by simp
    next
      case False
      then have mk: "m \<le> k" using Suc.prems by simp
      then have "P k (fold f [m..<k] s0)" using Suc by simp
      then have "P (Suc k) (f k (fold f [m..<k] s0))"
        using assms(3) [of k] mk Suc.prems by simp
      then show ?thesis using mk by simp
    qed
  qed
  then show ?thesis using assms(2) by simp
qed

lemma fold_upt_invariant:
  assumes "P 0 s0" and "\<And>i s. i < n \<Longrightarrow> P i s \<Longrightarrow> P (Suc i) (f i s)"
  shows "P n (fold f [0..<n] s0)"
  using assms by (intro fold_upt_from_invariant [where P = P]) simp_all

lemma demoted_refl: "demoted g g"
  by (simp add: demoted_def)

lemma demoted_set_split:
  assumes "list_all2 demoted gs gl"
  shows "list_all2 demoted gs (set_split j SPLIT_NONE gl)"
proof -
  have len: "length gs = length gl" using assms by (rule list_all2_lengthD)
  show ?thesis
    unfolding list_all2_conv_all_nth
  proof (intro conjI allI impI)
    show "length gs = length (set_split j SPLIT_NONE gl)"
      using len by (simp add: set_split_def)
  next
    fix k assume k: "k < length gs"
    have d: "demoted (gs ! k) (gl ! k)"
      using assms k by (simp add: list_all2_conv_all_nth)
    show "demoted (gs ! k) (set_split j SPLIT_NONE gl ! k)"
      using d k len by (cases "k = j") (auto simp add: set_split_def demoted_def)
  qed
qed

lemma demoted_demote:
  "list_all2 demoted gs gl \<Longrightarrow> list_all2 demoted gs (demote sg gl)"
  by (cases sg) (simp_all add: demote_def demoted_set_split)

lemma greedy_step_glyphs:
  "lb_glyphs (greedy_step rw i st) = lb_glyphs st
   \<or> (\<exists>sg. lb_glyphs (greedy_step rw i st) = demote sg (lb_glyphs st))"
  by (auto simp add: greedy_step_def Let_def)

lemma greedy_step_demoted:
  assumes "list_all2 demoted gs (lb_glyphs st)"
  shows "list_all2 demoted gs (lb_glyphs (greedy_step rw i st))"
  using greedy_step_glyphs [of rw i st] assms by (auto simp: demoted_demote)

lemma greedy_loop_demoted: "list_all2 demoted gl (lb_glyphs (greedy_loop gl fw rw))"
  unfolding greedy_loop_def
proof (rule fold_upt_invariant [where P = "\<lambda>i (st::greedy_state). list_all2 demoted gl (lb_glyphs st)"])
  show "list_all2 demoted gl (lb_glyphs (greedy_init gl fw))"
    by (simp add: greedy_init_def list_all2_conv_all_nth demoted_refl)
next
  fix i and st :: greedy_state
  assume "list_all2 demoted gl (lb_glyphs st)"
  then show "list_all2 demoted gl (lb_glyphs (greedy_step (f32 (real_of_int rw)) i st))"
    by (rule greedy_step_demoted)
qed

lemma hanging_example_run:
  "linebreak_greedy hanging_example 20 20 =
     [mk_glyph 97 SPLIT_NONE 5, mk_glyph 32 SPLIT_NONE 5, mk_glyph 98 SPLIT_NONE 5,
      mk_glyph 41 SPLIT_IGNORE 5, mk_glyph 41 SPLIT_IGNORE 5, mk_glyph 41 SPLIT_IGNORE 5,
      mk_glyph 32 SPLIT_INSTEAD 5, mk_glyph 99 SPLIT_NONE 10]"
  by (simp add: linebreak_greedy_def greedy_loop_def greedy_init_def greedy_step_def Let_def
      demote_def set_split_def hanging_example_def mk_glyph_def glyph0_def upt_rec)

text \<open>
  C10. For every glyph list and every pair of width budgets, the list that
  \<open>linebreak_greedy\<close> leaves has the same length, and the glyph at each position is
  the glyph that was there before, either untouched or with its split class set to
  \<open>SPLIT_NONE\<close> and no other field changed. So no glyph is moved, no field but
  \<open>split\<close> is written, and no glyph gets a break class it did not carry.
\<close>

theorem linebreak_greedy_frame:
  "list_all2 demoted gl (linebreak_greedy gl first_width rest_width)"
  by (simp add: linebreak_greedy_def Let_def demoted_demote greedy_loop_demoted)

theorem linebreak_greedy_frame_witness:
  "list_all2 demoted hanging_example
     [mk_glyph 97 SPLIT_NONE 5, mk_glyph 32 SPLIT_NONE 5, mk_glyph 98 SPLIT_NONE 5,
      mk_glyph 41 SPLIT_IGNORE 5, mk_glyph 41 SPLIT_IGNORE 5, mk_glyph 41 SPLIT_IGNORE 5,
      mk_glyph 32 SPLIT_INSTEAD 5, mk_glyph 99 SPLIT_NONE 10]"
  using linebreak_greedy_frame [of hanging_example 20 20]
  by (simp only: hanging_example_run)

section \<open>Results about the errors of tokenize\<close>

lemma loop_text_skip:
  "\<exists>buf' rv'. tokenize_loop cfg s cs TEXT_STATE buf rv =
      tokenize_loop cfg s (dropWhile (\<lambda>c. c \<noteq> LBRACE) cs) TEXT_STATE buf' rv'"
proof (induction cs arbitrary: buf rv)
  case Nil
  show ?case by auto
next
  case (Cons c cs)
  show ?case
  proof (cases "c = LBRACE")
    case True
    then show ?thesis by auto
  next
    case False
    then show ?thesis using Cons.IH by (simp add: NEWLINE_def LBRACE_def)
  qed
qed

lemma loop_tag_closed:
  "RBRACE \<in> set cs \<Longrightarrow>
   \<exists>buf' rv'. tokenize_loop cfg s cs TAG_STATE buf rv =
      tokenize_loop cfg s (tl (dropWhile (\<lambda>c. c \<noteq> RBRACE) cs)) TEXT_STATE buf' rv'"
proof (induction cs arbitrary: buf rv)
  case Nil
  then show ?case by simp
next
  case (Cons c cs)
  show ?case
  proof (cases "c = RBRACE")
    case True
    then show ?thesis by auto
  next
    case False
    then show ?thesis using Cons by simp
  qed
qed

lemma loop_tag_open:
  "RBRACE \<notin> set cs \<Longrightarrow>
   tokenize_loop cfg s cs TAG_STATE buf rv = Inr (TAG_STATE, buf @ cs, rv)"
  by (induction cs arbitrary: buf) auto

lemma loop_text_fault:
  "loop_agrees s (tokenize_loop cfg s cs TEXT_STATE buf rv) (find_fault cs)"
proof (induction cs arbitrary: buf rv rule: find_fault.induct)
  case (1 cs)
  obtain buf' rv' where skip:
    "tokenize_loop cfg s cs TEXT_STATE buf rv =
       tokenize_loop cfg s (dropWhile (\<lambda>c. c \<noteq> LBRACE) cs) TEXT_STATE buf' rv'"
    using loop_text_skip by blast
  show ?case
  proof (cases "dropWhile (\<lambda>c. c \<noteq> LBRACE) cs")
    case Nil
    then show ?thesis
      using skip by (simp add: find_fault.simps [of cs] loop_agrees_def del: dropWhile_eq_Nil_conv)
  next
    case (Cons b ds)
    note dw0 = this
    have b: "b = LBRACE"
      using Cons hd_dropWhile [of "\<lambda>c. c \<noteq> LBRACE" cs] by auto
    have nl: "LBRACE \<noteq> NEWLINE" by (simp add: LBRACE_def NEWLINE_def)
    show ?thesis
    proof (cases ds)
      case Nil
      then show ?thesis
        using skip Cons b nl by (simp add: find_fault.simps [of cs] loop_agrees_def)
    next
      case (Cons d rest)
      note ds = this
      have dw: "dropWhile (\<lambda>c. c \<noteq> LBRACE) cs = b # d # rest"
        using dw0 ds by simp
      consider (esc) "d = LBRACE" | (empty) "d \<noteq> LBRACE" "d = RBRACE"
        | (closed) "d \<noteq> LBRACE" "d \<noteq> RBRACE" "RBRACE \<in> set rest"
        | (opened) "d \<noteq> LBRACE" "d \<noteq> RBRACE" "RBRACE \<notin> set rest"
        by blast
      then show ?thesis
      proof cases
        case esc
        have "tokenize_loop cfg s cs TEXT_STATE buf rv =
                tokenize_loop cfg s rest TEXT_STATE (buf' @ [d]) rv'"
          using skip dw b nl esc by simp
        moreover have "find_fault cs = find_fault rest"
          using dw esc by (simp add: find_fault.simps [of cs])
        ultimately show ?thesis
          using "1.IH"(1) [OF dw0 ds esc] by simp
      next
        case empty
        have "tokenize_loop cfg s cs TEXT_STATE buf rv = Inl (EmptyTextTag s)"
          using skip dw b nl empty by simp
        moreover have "find_fault cs = Some EmptyTag"
          using dw empty by (simp add: find_fault.simps [of cs])
        ultimately show ?thesis by (simp add: loop_agrees_def)
      next
        case closed
        let ?rest' = "tl (dropWhile (\<lambda>c. c \<noteq> RBRACE) rest)"
        obtain buf2 rv2 where
          "tokenize_loop cfg s rest TAG_STATE [d] (if buf' \<noteq> [] then finish_text cfg buf' rv' else rv') =
             tokenize_loop cfg s ?rest' TEXT_STATE buf2 rv2"
          using loop_tag_closed [OF closed(3)] by blast
        then have "tokenize_loop cfg s cs TEXT_STATE buf rv =
                tokenize_loop cfg s ?rest' TEXT_STATE buf2 rv2"
          using skip dw b nl closed by simp
        moreover have "find_fault cs = find_fault ?rest'"
          using dw closed by (simp add: find_fault.simps [of cs])
        ultimately show ?thesis
          using "1.IH"(2) [OF dw0 ds closed] by simp
      next
        case opened
        have "tokenize_loop cfg s cs TEXT_STATE buf rv =
                Inr (TAG_STATE, [d] @ rest, (if buf' \<noteq> [] then finish_text cfg buf' rv' else rv'))"
          using skip dw b nl opened by (simp add: loop_tag_open)
        moreover have "find_fault cs = Some OpenTag"
          using dw opened by (simp add: find_fault.simps [of cs])
        ultimately show ?thesis by (simp add: loop_agrees_def)
      qed
    qed
  qed
qed

lemma find_fault_no_brace: "LBRACE \<notin> set s \<Longrightarrow> find_fault s = None"
proof -
  assume "LBRACE \<notin> set s"
  then have "dropWhile (\<lambda>c. c \<noteq> LBRACE) s = []" by auto
  then show ?thesis by (simp add: find_fault.simps [of s] del: dropWhile_eq_Nil_conv)
qed

lemma tokenize_fault:
  "(case fault_error s of None \<Rightarrow> (\<exists>r. tokenize cfg s = Inr r) | Some e \<Rightarrow> tokenize cfg s = Inl e)"
proof (cases "s = [] \<or> (LBRACE \<notin> set s \<and> NEWLINE \<notin> set s \<and> LENT_LEFT \<notin> set s)")
  case True
  then have "find_fault s = None" by (auto simp: find_fault_no_brace)
  then show ?thesis using True by (auto simp add: fault_error_def tokenize_def)
next
  case False
  have "loop_agrees s (tokenize_loop cfg s s TEXT_STATE [] []) (find_fault s)"
    by (rule loop_text_fault)
  then show ?thesis
    using False
    by (cases "find_fault s")
       (auto simp add: fault_error_def tokenize_def loop_agrees_def split: markup_fault.splits)
qed

text \<open>
  C4. \<open>tokenize\<close> raises exactly when the input has a markup fault, a tag opened by
  a left brace and not closed before the end of the input, or an empty tag: it raises
  the error \<open>e\<close> if and only if \<open>e\<close> is the error of the fault of the input
  (the empty-tag error for an empty tag, the open-tag error for a tag left open). It
  returns normally if and only if the input has no fault, and the empty input gives the
  empty list.
\<close>

theorem tokenize_raises_iff:
  "(tokenize cfg s = Inl e) = (fault_error s = Some e)
   \<and> (\<exists>r. tokenize cfg s = Inr r) = (fault_error s = None)
   \<and> tokenize cfg [] = Inr []"
proof -
  have "tokenize cfg [] = Inr []" by (simp add: tokenize_def)
  then show ?thesis
    using tokenize_fault [of cfg s] by (cases "fault_error s") auto
qed

theorem tokenize_raises_iff_witness:
  "tokenize True [123, 125] = Inl (EmptyTextTag [123, 125])
   \<and> tokenize True [97, 123, 98] = Inl (OpenTextTag [97, 123, 98])
   \<and> (\<exists>r. tokenize True [97, 123, 98, 125, 99] = Inr r)"
  using tokenize_raises_iff [of True "[123, 125]" "EmptyTextTag [123, 125]"]
    tokenize_raises_iff [of True "[97, 123, 98]" "OpenTextTag [97, 123, 98]"]
    tokenize_raises_iff [of True "[97, 123, 98, 125, 99]"]
  by (simp add: fault_error_def find_fault.simps LBRACE_def RBRACE_def)

section \<open>Results about align_and_justify\<close>

lemma f32_half_numeral [simp]:
  "numeral n < (16777216::int) \<Longrightarrow> f32 (numeral n / 2) = numeral n / 2"
  using f32_half_int [of "numeral n"] by simp

lemma f32_neg_half_numeral [simp]:
  "numeral n < (16777216::int) \<Longrightarrow> f32 (- (numeral n / 2)) = - (numeral n / 2)"
  using f32_half_int [of "- numeral n"] by simp

lemma f32_half [simp]: "f32 (1 / 2) = 1 / 2"
  using f32_half_int [of 1] by simp

lemma f64_numeral [simp]:
  "numeral n < (9007199254740992::int) \<Longrightarrow> f64 (numeral n) = numeral n"
  using f64_int [of "numeral n"] by simp

lemma f64_neg_numeral [simp]:
  "numeral n < (9007199254740992::int) \<Longrightarrow> f64 (- numeral n) = - numeral n"
  using f64_int [of "- numeral n"] by simp

lemma int_wrap_id: "in_int n \<Longrightarrow> int_wrap n = n"
  by (simp add: in_int_def int_wrap_def)

lemma c_int_half: "c_int (1 / 2) = 0"
  by (simp add: c_int_def in_int_def)

lemma c_int_int_half:
  assumes "0 \<le> S" and "S < 2 ^ 23"
  shows "c_int (real_of_int S + 1 / 2) = S"
proof -
  have "\<lfloor>real_of_int S + 1 / 2\<rfloor> = S" by (rule floor_unique) simp_all
  moreover have "0 \<le> real_of_int S + 1 / 2" using assms(1) by simp
  moreover have "in_int S" using assms by (simp add: in_int_def)
  ultimately show ?thesis by (simp add: c_int_def Let_def)
qed

lemma shift_glyph_zero: "in_int (x g) \<Longrightarrow> shift_glyph 0 g = g"
  by (simp add: shift_glyph_def int_wrap_id)

lemma shift_glyph_moved: "in_int (x g + d) \<Longrightarrow> shift_glyph d g = moved_by d g"
  by (simp add: shift_glyph_def moved_by_def counted_def int_wrap_id)

lemma fold_measure_fst:
  "fst (fold measure_step gl sm) = fst sm + length (filter is_space gl)"
  by (induction gl arbitrary: sm) (simp_all add: measure_step_def is_space_def counted_def)

lemma measure_line_spaces: "fst (measure_line gl) = length (filter is_space gl)"
  by (simp add: measure_line_def fold_measure_fst)

lemma shift_glyph_zero_map: "\<forall>g\<in>set gl. in_int (x g) \<Longrightarrow> map (shift_glyph 0) gl = gl"
  by (induction gl) (simp_all add: shift_glyph_zero)

lemma shift_glyph_moved_map:
  "\<forall>g\<in>set gl. in_int (x g + d) \<Longrightarrow> map (shift_glyph d) gl = map (moved_by d) gl"
  by (induction gl) (simp_all add: shift_glyph_moved)

lemma justify_no_space:
  "\<forall>g\<in>set gl. \<not> is_space g \<Longrightarrow>
   justify_glyphs per off gl = map (shift_glyph (c_int off)) gl"
  by (induction gl) (auto simp add: shift_glyph_def is_space_def counted_def Let_def)

lemma justify_append:
  "\<forall>g\<in>set pre. \<not> is_space g \<Longrightarrow>
   justify_glyphs per off (pre @ rest) = map (shift_glyph (c_int off)) pre @ justify_glyphs per off rest"
  by (induction pre) (auto simp add: shift_glyph_def is_space_def counted_def Let_def)

lemma justify_one_space:
  assumes "is_space sp" and "\<forall>g\<in>set pre. \<not> is_space g" and "\<forall>g\<in>set post. \<not> is_space g"
    and "\<forall>g\<in>set pre. in_int (x g)"
  shows "justify_glyphs per (1 / 2) (pre @ sp # post) =
           pre @ shift_glyph (c_int (f32 (1 / 2 + per))) sp
             # map (shift_glyph (c_int (f32 (1 / 2 + per)))) post"
proof -
  have "justify_glyphs per (1 / 2) (pre @ sp # post) =
          map (shift_glyph (c_int (1 / 2))) pre @ justify_glyphs per (1 / 2) (sp # post)"
    using assms(2) by (rule justify_append)
  also have "map (shift_glyph (c_int (1 / 2))) pre = pre"
    using assms(4) by (simp add: c_int_half shift_glyph_zero_map)
  also have "justify_glyphs per (1 / 2) (sp # post) =
      shift_glyph (c_int (f32 (1 / 2 + per))) sp # justify_glyphs per (f32 (1 / 2 + per)) post"
    using assms(1) by (simp add: is_space_def counted_def shift_glyph_def Let_def)
  also have "justify_glyphs per (f32 (1 / 2 + per)) post
               = map (shift_glyph (c_int (f32 (1 / 2 + per)))) post"
    using assms(3) by (rule justify_no_space)
  finally show ?thesis .
qed

text \<open>With one space and a slack from 0 to below \<open>2 ^ 23\<close> no operation rounds.\<close>

lemma one_space_offset:
  assumes "0 \<le> S" and "S < 2 ^ 23"
  shows "f32 (f64 (f64 (1 * real_of_int (int_wrap S)) / real 1)) = real_of_int S"
    and "f32 (1 / 2 + real_of_int S) = 1 / 2 + real_of_int S"
proof -
  have w: "int_wrap S = S" using assms by (simp add: int_wrap_id in_int_def)
  have "\<bar>S\<bar> < 2 ^ 53" using assms by simp
  then have d: "f64 (real_of_int S) = real_of_int S" by (rule f64_int)
  have "\<bar>S\<bar> < 2 ^ 24" using assms by simp
  then have s: "f32 (real_of_int S) = real_of_int S" by (rule f32_int)
  show "f32 (f64 (f64 (1 * real_of_int (int_wrap S)) / real 1)) = real_of_int S"
    by (simp add: w d s)
  have eq: "real_of_int (2 * S + 1) / 2 = 1 / 2 + real_of_int S" by simp
  have "\<bar>2 * S + 1\<bar> < 2 ^ 24" using assms by simp
  then have "f32 (real_of_int (2 * S + 1) / 2) = real_of_int (2 * S + 1) / 2"
    by (rule f32_half_int)
  then show "f32 (1 / 2 + real_of_int S) = 1 / 2 + real_of_int S"
    unfolding eq .
qed

text \<open>
  With the slack \<open>2 ^ 23 + 1\<close> (the width 8388612, the ink width 3) the sum
  \<open>0.5 + 8388609\<close> lies halfway between two floats and is rounded to 8388610: the
  space and the glyph behind it move by 8388610.
\<close>

lemma f32_tie_up: "f32 (16777219 / 2) = 8388610"
proof -
  have "fround 24 (- 126) 127 (16777219 / 2) =
          2 powi (23 - int 24 + 1)
            * of_int (round_half_even (16777219 / 2 / 2 powi (23 - int 24 + 1)))"
    by (rule fround_at) simp_all
  moreover have "\<lfloor>16777219 / (2::real)\<rfloor> = 8388609"
    by (rule floor_unique) simp_all
  ultimately show ?thesis by (simp add: f32_def round_half_even_def Let_def)
qed

lemma wide_slack_shift:
  "map x (glyphs (align_and_justify
      [line0\<lparr>glyphs := [placed_glyph 97 0 1 RUBY_NONE, placed_glyph 32 1 1 RUBY_NONE,
                          placed_glyph 98 2 1 RUBY_NONE]\<rparr>] 8388612 0 True ! 0))
     = [0, 8388611, 8388612]"
  by (simp add: align_and_justify_def align_line_def line0_def placed_glyph_def glyph0_def
      measure_line_def measure_step_def c_int_def in_int_def int_wrap_def MAX_WIDTH_def
      Let_def f32_tie_up)

text \<open>
  C9 (as amended). Let \<open>align_and_justify\<close> run with justification on a line that
  is not the last of its paragraph, whose glyphs are \<open>pre\<close>, then one counted space,
  then \<open>post\<close>, with no other counted space, whose ink width (as the function
  measures it) is below the maximum width, whose slack \<open>S\<close> (the width minus the ink
  width) is at least 0 and below \<open>2 ^ 23\<close>, and whose glyphs have x positions that
  are C ints and stay C ints when \<open>S\<close> is added. Then the glyphs before the space
  are unchanged; the space and every glyph behind it that is not ruby-top or ruby-alt
  have their x increased by exactly \<open>S\<close>; the ruby-top and ruby-alt glyphs keep their
  x; and nothing else changes. The bound on the slack is needed: from \<open>2 ^ 23\<close> on
  the float sum \<open>0.5 + S\<close> is rounded to an integer, and \<open>wide_slack_shift\<close>
  shows a shift of \<open>S + 1\<close>.
\<close>

theorem justify_single_space:
  assumes "i < length lines" and "\<not> eop (lines ! i)"
    and "glyphs (lines ! i) = pre @ sp # post"
    and "is_space sp" and "\<forall>g\<in>set pre. \<not> is_space g" and "\<forall>g\<in>set post. \<not> is_space g"
    and "ink_width (lines ! i) < MAX_WIDTH"
    and "0 \<le> w - ink_width (lines ! i)" and "w - ink_width (lines ! i) < 2 ^ 23"
    and "\<forall>g\<in>set (glyphs (lines ! i)).
           in_int (x g) \<and> in_int (x g + (w - ink_width (lines ! i)))"
  shows "align_and_justify lines w text_align True ! i =
           (lines ! i)\<lparr>glyphs :=
              pre @ moved_by (w - ink_width (lines ! i)) sp
                # map (moved_by (w - ink_width (lines ! i))) post\<rparr>"
proof -
  let ?l = "lines ! i"
  let ?S = "w - ink_width ?l"
  obtain spaces max_x where m: "measure_line (glyphs ?l) = (spaces, max_x)"
    by (cases "measure_line (glyphs ?l)")
  have mx: "max_x = ink_width ?l" using m by (simp add: ink_width_def)
  have "spaces = fst (measure_line (glyphs ?l))" using m by simp
  also have "\<dots> = length (filter is_space (pre @ sp # post))"
    by (simp only: measure_line_spaces assms(3))
  also have "\<dots> = 1" using assms(4,5,6) by simp
  finally have sp1: "spaces = 1" .
  note exact = one_space_offset [OF assms(8,9)]
  have pre_in: "\<forall>g\<in>set pre. in_int (x g)" using assms(3,10) by simp
  have sp_in: "in_int (x sp + ?S)" using assms(3,10) by simp
  have post_in: "\<forall>g\<in>set post. in_int (x g + ?S)" using assms(3,10) by simp
  have "align_line w (f32 text_align) True ?l =
          ?l\<lparr>glyphs := justify_glyphs
                 (f32 (f64 (f64 (1 * real_of_int (int_wrap ?S)) / real 1))) (1 / 2) (glyphs ?l)\<rparr>"
    using m sp1 assms(2,7) mx by (simp add: align_line_def)
  also have "justify_glyphs (f32 (f64 (f64 (1 * real_of_int (int_wrap ?S)) / real 1)))
               (1 / 2) (glyphs ?l) =
      pre @ shift_glyph (c_int (f32 (1 / 2 + real_of_int ?S))) sp
        # map (shift_glyph (c_int (f32 (1 / 2 + real_of_int ?S)))) post"
    unfolding exact(1) assms(3) using assms(4,5,6) pre_in by (rule justify_one_space)
  also have "c_int (f32 (1 / 2 + real_of_int ?S)) = ?S"
    unfolding exact(2) using c_int_int_half [OF assms(8,9)] by (simp add: add.commute)
  also have "shift_glyph ?S sp = moved_by ?S sp"
    using sp_in by (rule shift_glyph_moved)
  also have "map (shift_glyph ?S) post = map (moved_by ?S) post"
    using post_in by (rule shift_glyph_moved_map)
  finally show ?thesis using assms(1) by (simp add: align_and_justify_def Let_def)
qed

theorem justify_single_space_witness:
  "map x (glyphs (align_and_justify justify_lines 30 0 True ! 0)) = [0, 15, 20, 15]"
  using justify_single_space
    [of 0 justify_lines "[placed_glyph 97 0 10 RUBY_NONE]" "placed_glyph 32 10 5 RUBY_NONE"
        "[placed_glyph 98 15 10 RUBY_NONE, placed_glyph 114 15 5 RUBY_TOP]" 30 0]
  by (simp add: justify_lines_def line0_def placed_glyph_def glyph0_def is_space_def counted_def
      ink_width_def measure_line_def measure_step_def c_int_def in_int_def MAX_WIDTH_def
      moved_by_def Let_def)

theorem justify_single_space_counterexample:
  "map x (glyphs (align_and_justify justify_lines 30 0 True ! 0)) = [0, 15, 20, 15]
   \<and> ruby (glyphs (justify_lines ! 0) ! 3) = RUBY_TOP
   \<and> x (glyphs (justify_lines ! 0) ! 3)
        + \<lfloor>real_of_int (30 - ink_width (justify_lines ! 0)) + 1 / 2\<rfloor> = 20
   \<and> map x (glyphs (align_and_justify justify_lines 30 0 True ! 1)) = [0, 6, 11]
   \<and> x (glyphs (justify_lines ! 1) ! 2)
        + \<lfloor>real_of_int (30 - ink_width (justify_lines ! 1)) + 1 / 2\<rfloor> = 10"
  by (simp add: align_and_justify_def align_line_def justify_lines_def line0_def
      placed_glyph_def glyph0_def ink_width_def measure_line_def measure_step_def c_int_def
      in_int_def int_wrap_def MAX_WIDTH_def Let_def)

section \<open>Results about annotate_unicode\<close>

lemma length_set_split [simp]: "length (set_split j s G) = length G"
  by (simp add: set_split_def)

lemma character_set_split [simp]: "character (set_split j s G ! k) = character (G ! k)"
proof (cases "k = j")
  case True
  then show ?thesis
    by (cases "j < length G") (simp_all add: set_split_def list_update_beyond)
next
  case False
  then show ?thesis by (simp add: set_split_def)
qed

lemma ruby_set_split [simp]: "ruby (set_split j s G ! k) = ruby (G ! k)"
proof (cases "k = j")
  case True
  then show ?thesis
    by (cases "j < length G") (simp_all add: set_split_def list_update_beyond)
next
  case False
  then show ?thesis by (simp add: set_split_def)
qed

lemma split_set_split:
  "k < length G \<Longrightarrow> split (set_split j s G ! k) = (if k = j then s else split (G ! k))"
  by (simp add: set_split_def nth_list_update)

text \<open>The three kinds of iteration, when the previous class is not \<open>BC_CB\<close>.\<close>

lemma annotate_step_space:
  "effective_class T noi cjk (character (G ! pos)) = BC_SP T \<Longrightarrow>
   annotate_step T noi cjk pos (ot, sp, G) = (ot, pos, set_split pos SPLIT_NONE G)"
  by (simp add: annotate_step_def)

lemma annotate_step_inert:
  assumes "ot \<noteq> BC_CB T" and "c = effective_class T noi cjk (character (G ! pos))"
    and "c \<noteq> BC_SP T" and "c = BC_CM T \<or> c = BC_CB T \<or> c = BC_CL T \<or> c = BC_CP T"
  shows "annotate_step T noi cjk pos (ot, sp, G) =
           (ot, sp, set_split pos
              (if c = BC_CM T then SPLIT_NONE
               else if c = BC_CB T
                 then (if ot = BC_WJ T \<or> ot = BC_GL T then SPLIT_NONE else SPLIT_BEFORE)
               else SPLIT_IGNORE) G)"
  using assms by (auto simp add: annotate_step_def Let_def)

lemma annotate_step_real:
  assumes "ot \<noteq> BC_CB T" and "c = effective_class T noi cjk (character (G ! pos))"
    and "c \<noteq> BC_SP T" and "c \<noteq> BC_CM T" and "c \<noteq> BC_CB T" and "c \<noteq> BC_CL T"
    and "c \<noteq> BC_CP T"
    and "brk = (break_rules T (ot * BC_PITCH T + c) = 37 \<or> break_rules T (ot * BC_PITCH T + c) = 95)"
  shows "annotate_step T noi cjk pos (ot, sp, G) =
           (c, 0, set_split pos
              (if break_rules T (ot * BC_PITCH T + c) = 95 \<and> sp = 0
               then SPLIT_BEFORE else SPLIT_NONE)
              (if sp \<noteq> 0 \<and> brk then set_split sp SPLIT_INSTEAD G else G))"
  using assms by (auto simp add: annotate_step_def Let_def)

lemma pending_Suc:
  "k \<le> p \<Longrightarrow>
   pending T noi cjk gl k (Suc p) =
     (pending T noi cjk gl k p \<and> (k < p \<longrightarrow> inert_glyph T noi cjk (gl ! p)))"
  by (auto simp add: pending_def less_Suc_eq)

lemma resolved_Suc:
  "resolved_before T noi cjk gl k (Suc p) =
     (resolved_before T noi cjk gl k p
      \<or> (k < p \<and> pending T noi cjk gl k p \<and> break_here T noi cjk gl p))"
  by (auto simp add: resolved_before_def less_Suc_eq)

lemma break_here_real: "break_here T noi cjk gl j \<Longrightarrow> real_glyph T noi cjk (gl ! j)"
  by (simp add: break_here_def)

lemma pending_not_resolved:
  "pending T noi cjk gl k p \<Longrightarrow> \<not> resolved_before T noi cjk gl k p"
  by (auto simp add: pending_def resolved_before_def inert_glyph_def dest: break_here_real)

lemma annotate_invI:
  assumes "length G = length gl"
    and "\<And>k. character (G ! k) = character (gl ! k)"
    and "\<And>k. ruby (G ! k) = ruby (gl ! k)"
    and "ot = prev_class T noi cjk gl pos" and "ot \<noteq> BC_CB T"
    and "sp \<noteq> 0 \<Longrightarrow> sp < pos \<and> space_glyph T noi cjk (gl ! sp)"
    and "\<And>k. 1 \<le> k \<Longrightarrow> k < pos \<Longrightarrow> space_glyph T noi cjk (gl ! k) \<Longrightarrow>
           pending T noi cjk gl k pos = (sp = k)"
    and "\<And>k. 1 \<le> k \<Longrightarrow> k < pos \<Longrightarrow> space_glyph T noi cjk (gl ! k) \<Longrightarrow>
           split (G ! k) =
             (if resolved_before T noi cjk gl k pos then SPLIT_INSTEAD else SPLIT_NONE)"
    and "\<And>k. 1 \<le> k \<Longrightarrow> k < pos \<Longrightarrow> glyph_class T noi cjk (gl ! k) = BC_CM T \<Longrightarrow>
           \<not> space_glyph T noi cjk (gl ! k) \<Longrightarrow> split (G ! k) = SPLIT_NONE"
  shows "annotate_inv T noi cjk gl pos (ot, sp, G)"
  unfolding annotate_inv_def prod.case using assms by blast

lemma annotate_invD:
  assumes "annotate_inv T noi cjk gl pos (ot, sp, G)"
  shows "length G = length gl"
    and "character (G ! k) = character (gl ! k)"
    and "ruby (G ! k) = ruby (gl ! k)"
    and "ot = prev_class T noi cjk gl pos" and "ot \<noteq> BC_CB T"
    and "sp \<noteq> 0 \<Longrightarrow> sp < pos \<and> space_glyph T noi cjk (gl ! sp)"
    and "1 \<le> k \<Longrightarrow> k < pos \<Longrightarrow> space_glyph T noi cjk (gl ! k) \<Longrightarrow>
           pending T noi cjk gl k pos = (sp = k)"
    and "1 \<le> k \<Longrightarrow> k < pos \<Longrightarrow> space_glyph T noi cjk (gl ! k) \<Longrightarrow>
           split (G ! k) =
             (if resolved_before T noi cjk gl k pos then SPLIT_INSTEAD else SPLIT_NONE)"
    and "1 \<le> k \<Longrightarrow> k < pos \<Longrightarrow> glyph_class T noi cjk (gl ! k) = BC_CM T \<Longrightarrow>
           \<not> space_glyph T noi cjk (gl ! k) \<Longrightarrow> split (G ! k) = SPLIT_NONE"
  using assms unfolding annotate_inv_def prod.case by blast+

lemma annotate_step_inv:
  assumes pos: "1 \<le> pos" "pos < length gl" and inv: "annotate_inv T noi cjk gl pos st"
  shows "annotate_inv T noi cjk gl (Suc pos) (annotate_step T noi cjk pos st)"
proof -
  obtain ot sp G where st: "st = (ot, sp, G)" by (cases st)
  note d = annotate_invD [OF inv [unfolded st]]
  have len: "length G = length gl" by (rule d(1))
  have pl: "pos < length G" using pos(2) len by simp
  define c where "c = effective_class T noi cjk (character (G ! pos))"
  have cgl: "glyph_class T noi cjk (gl ! pos) = c"
    by (simp add: c_def glyph_class_def d(2))
  have old_split: "split (set_split pos s G ! k) = split (G ! k)" if "k < pos" for k s
    using that pl by (simp add: split_set_split)
  consider (space) "c = BC_SP T"
    | (inert) "c \<noteq> BC_SP T" "c = BC_CM T \<or> c = BC_CB T \<or> c = BC_CL T \<or> c = BC_CP T"
    | (real) "c \<noteq> BC_SP T" "c \<noteq> BC_CM T" "c \<noteq> BC_CB T" "c \<noteq> BC_CL T" "c \<noteq> BC_CP T"
    by blast
  then show ?thesis
  proof cases
    case space
    have sg: "space_glyph T noi cjk (gl ! pos)" using space cgl by (simp add: space_glyph_def)
    have nr: "\<not> real_glyph T noi cjk (gl ! pos)" using space cgl by (simp add: real_glyph_def)
    have ni: "\<not> inert_glyph T noi cjk (gl ! pos)" using sg by (simp add: inert_glyph_def)
    have nb: "\<not> break_here T noi cjk gl pos" using nr by (simp add: break_here_def)
    have step: "annotate_step T noi cjk pos st = (ot, pos, set_split pos SPLIT_NONE G)"
      unfolding st using space [unfolded c_def] by (rule annotate_step_space)
    show ?thesis
      unfolding step
    proof (rule annotate_invI)
      show "length (set_split pos SPLIT_NONE G) = length gl" using len by simp
      show "character (set_split pos SPLIT_NONE G ! k) = character (gl ! k)" for k
        by (simp add: d(2))
      show "ruby (set_split pos SPLIT_NONE G ! k) = ruby (gl ! k)" for k
        by (simp add: d(3))
      show "ot = prev_class T noi cjk gl (Suc pos)" using d(4) nr by simp
      show "ot \<noteq> BC_CB T" by (rule d(5))
      show "pos < Suc pos \<and> space_glyph T noi cjk (gl ! pos)" using sg by simp
    next
      fix k assume k: "1 \<le> k" "k < Suc pos" "space_glyph T noi cjk (gl ! k)"
      show "pending T noi cjk gl k (Suc pos) = (pos = k)"
      proof (cases "k = pos")
        case True
        then show ?thesis by (auto simp add: pending_def)
      next
        case False
        then have "k < pos" using k(2) by simp
        then have "\<not> pending T noi cjk gl k (Suc pos)" using ni by (simp add: pending_Suc)
        then show ?thesis using False by simp
      qed
      show "split (set_split pos SPLIT_NONE G ! k) =
              (if resolved_before T noi cjk gl k (Suc pos) then SPLIT_INSTEAD else SPLIT_NONE)"
      proof (cases "k = pos")
        case True
        have "\<not> resolved_before T noi cjk gl pos (Suc pos)"
          by (simp add: resolved_before_def)
        then show ?thesis using True pl by (simp add: split_set_split)
      next
        case False
        then have kp: "k < pos" using k(2) by simp
        have "resolved_before T noi cjk gl k (Suc pos) = resolved_before T noi cjk gl k pos"
          using nb by (simp add: resolved_Suc)
        then show ?thesis using d(8) [OF k(1) kp k(3)] old_split [OF kp] by simp
      qed
    next
      fix k assume k: "1 \<le> k" "k < Suc pos" "glyph_class T noi cjk (gl ! k) = BC_CM T"
        "\<not> space_glyph T noi cjk (gl ! k)"
      have "k \<noteq> pos" using k(4) sg by auto
      then have kp: "k < pos" using k(2) by simp
      show "split (set_split pos SPLIT_NONE G ! k) = SPLIT_NONE"
        using d(9) [OF k(1) kp k(3,4)] old_split [OF kp] by simp
    qed
  next
    case inert
    have nsg: "\<not> space_glyph T noi cjk (gl ! pos)" using inert cgl by (simp add: space_glyph_def)
    have nr: "\<not> real_glyph T noi cjk (gl ! pos)" using inert cgl by (auto simp add: real_glyph_def)
    have ig: "inert_glyph T noi cjk (gl ! pos)" using nsg nr by (simp add: inert_glyph_def)
    have nb: "\<not> break_here T noi cjk gl pos" using nr by (simp add: break_here_def)
    define s where "s = (if c = BC_CM T then SPLIT_NONE
               else if c = BC_CB T
                 then (if ot = BC_WJ T \<or> ot = BC_GL T then SPLIT_NONE else SPLIT_BEFORE)
               else SPLIT_IGNORE)"
    have step: "annotate_step T noi cjk pos st = (ot, sp, set_split pos s G)"
      unfolding st s_def using d(5) c_def inert by (rule annotate_step_inert)
    show ?thesis
      unfolding step
    proof (rule annotate_invI)
      show "length (set_split pos s G) = length gl" using len by simp
      show "character (set_split pos s G ! k) = character (gl ! k)" for k
        by (simp add: d(2))
      show "ruby (set_split pos s G ! k) = ruby (gl ! k)" for k
        by (simp add: d(3))
      show "ot = prev_class T noi cjk gl (Suc pos)" using d(4) nr by simp
      show "ot \<noteq> BC_CB T" by (rule d(5))
      show "sp < Suc pos \<and> space_glyph T noi cjk (gl ! sp)" if "sp \<noteq> 0"
        using d(6) [OF that] by simp
    next
      fix k assume k: "1 \<le> k" "k < Suc pos" "space_glyph T noi cjk (gl ! k)"
      have "k \<noteq> pos" using k(3) nsg by auto
      then have kp: "k < pos" using k(2) by simp
      have "pending T noi cjk gl k (Suc pos) = pending T noi cjk gl k pos"
        using kp ig by (simp add: pending_Suc)
      then show "pending T noi cjk gl k (Suc pos) = (sp = k)"
        using d(7) [OF k(1) kp k(3)] by simp
      have "resolved_before T noi cjk gl k (Suc pos) = resolved_before T noi cjk gl k pos"
        using nb by (simp add: resolved_Suc)
      then show "split (set_split pos s G ! k) =
              (if resolved_before T noi cjk gl k (Suc pos) then SPLIT_INSTEAD else SPLIT_NONE)"
        using d(8) [OF k(1) kp k(3)] old_split [OF kp] by simp
    next
      fix k assume k: "1 \<le> k" "k < Suc pos" "glyph_class T noi cjk (gl ! k) = BC_CM T"
        "\<not> space_glyph T noi cjk (gl ! k)"
      show "split (set_split pos s G ! k) = SPLIT_NONE"
      proof (cases "k = pos")
        case True
        then have "c = BC_CM T" using k(3) cgl by simp
        then show ?thesis using True pl by (simp add: split_set_split s_def)
      next
        case False
        then have kp: "k < pos" using k(2) by simp
        show ?thesis using d(9) [OF k(1) kp k(3,4)] old_split [OF kp] by simp
      qed
    qed
  next
    case real
    have nsg: "\<not> space_glyph T noi cjk (gl ! pos)" using real cgl by (simp add: space_glyph_def)
    have rg: "real_glyph T noi cjk (gl ! pos)" using real cgl by (simp add: real_glyph_def)
    have ni: "\<not> inert_glyph T noi cjk (gl ! pos)" using rg by (simp add: inert_glyph_def)
    define brk where
      "brk = (break_rules T (ot * BC_PITCH T + c) = 37 \<or> break_rules T (ot * BC_PITCH T + c) = 95)"
    have bh: "break_here T noi cjk gl pos = brk"
      using rg cgl d(4) by (simp add: break_here_def brk_def Let_def)
    define s where "s = (if break_rules T (ot * BC_PITCH T + c) = 95 \<and> sp = 0
               then SPLIT_BEFORE else SPLIT_NONE)"
    define H where "H = (if sp \<noteq> 0 \<and> brk then set_split sp SPLIT_INSTEAD G else G)"
    have step: "annotate_step T noi cjk pos st = (c, 0, set_split pos s H)"
      unfolding st s_def H_def using d(5) c_def real brk_def by (rule annotate_step_real)
    have lenH: "length H = length G" by (simp add: H_def)
    have splitH: "split (set_split pos s H ! k) = split (H ! k)" if "k < pos" for k
      using that pl lenH by (simp add: split_set_split)
    show ?thesis
      unfolding step
    proof (rule annotate_invI)
      show "length (set_split pos s H) = length gl" using len lenH by simp
      show "character (set_split pos s H ! k) = character (gl ! k)" for k
        by (simp add: H_def d(2))
      show "ruby (set_split pos s H ! k) = ruby (gl ! k)" for k
        by (simp add: H_def d(3))
      show "c = prev_class T noi cjk gl (Suc pos)" using rg pos(1) cgl by simp
      show "c \<noteq> BC_CB T" by (rule real(3))
      show "0 < Suc pos \<and> space_glyph T noi cjk (gl ! 0)" if "(0::nat) \<noteq> 0"
        using that by simp
    next
      fix k assume k: "1 \<le> k" "k < Suc pos" "space_glyph T noi cjk (gl ! k)"
      have "k \<noteq> pos" using k(3) nsg by auto
      then have kp: "k < pos" using k(2) by simp
      have "\<not> pending T noi cjk gl k (Suc pos)" using kp ni by (simp add: pending_Suc)
      then show "pending T noi cjk gl k (Suc pos) = (0 = k)" using k(1) by simp
      have kl: "k < length G" using kp pl by simp
      have res: "resolved_before T noi cjk gl k (Suc pos) =
                   (resolved_before T noi cjk gl k pos \<or> (sp = k \<and> brk))"
        using kp d(7) [OF k(1) kp k(3)] bh by (simp add: resolved_Suc)
      have old: "split (G ! k) =
                   (if resolved_before T noi cjk gl k pos then SPLIT_INSTEAD else SPLIT_NONE)"
        by (rule d(8) [OF k(1) kp k(3)])
      have "split (H ! k) =
              (if resolved_before T noi cjk gl k (Suc pos) then SPLIT_INSTEAD else SPLIT_NONE)"
      proof (cases "sp = k \<and> brk")
        case True
        then have "H = set_split k SPLIT_INSTEAD G" using k(1) by (simp add: H_def)
        then have "split (H ! k) = SPLIT_INSTEAD" using kl by (simp add: split_set_split)
        then show ?thesis using res True by simp
      next
        case False
        have "split (H ! k) = split (G ! k)"
        proof (cases "sp \<noteq> 0 \<and> brk")
          case True
          then have "sp \<noteq> k" using False by auto
          then show ?thesis using True kl by (simp add: H_def split_set_split)
        next
          case False
          then show ?thesis by (auto simp add: H_def)
        qed
        then show ?thesis using res False old by simp
      qed
      then show "split (set_split pos s H ! k) =
              (if resolved_before T noi cjk gl k (Suc pos) then SPLIT_INSTEAD else SPLIT_NONE)"
        using splitH [OF kp] by simp
    next
      fix k assume k: "1 \<le> k" "k < Suc pos" "glyph_class T noi cjk (gl ! k) = BC_CM T"
        "\<not> space_glyph T noi cjk (gl ! k)"
      have "k \<noteq> pos" using k(3) cgl real(2) by auto
      then have kp: "k < pos" using k(2) by simp
      have kl: "k < length G" using kp pl by simp
      have "split (H ! k) = split (G ! k)"
      proof (cases "sp \<noteq> 0 \<and> brk")
        case True
        then have "space_glyph T noi cjk (gl ! sp)" using d(6) by simp
        then have "sp \<noteq> k" using k(4) by auto
        then show ?thesis using True kl by (simp add: H_def split_set_split)
      next
        case False
        then show ?thesis by (auto simp add: H_def)
      qed
      then show "split (set_split pos s H ! k) = SPLIT_NONE"
        using d(9) [OF k(1) kp k(3,4)] splitH [OF kp] by simp
    qed
  qed
qed

lemma annotate_loop_inv:
  assumes "gl \<noteq> []" and "BC_WJ T \<noteq> BC_CB T"
  shows "annotate_inv T noi cjk gl (length gl)
           (fold (annotate_step T noi cjk) [1..<length gl] (BC_WJ T, 0, gl))"
proof (rule fold_upt_from_invariant [where P = "annotate_inv T noi cjk gl"])
  show "annotate_inv T noi cjk gl 1 (BC_WJ T, 0, gl)"
    using assms(2) by (intro annotate_invI) simp_all
  show "1 \<le> length gl" using assms(1) by (simp add: Suc_le_eq)
next
  fix i st
  assume "1 \<le> i" "i < length gl" "annotate_inv T noi cjk gl i st"
  then show "annotate_inv T noi cjk gl (Suc i) (annotate_step T noi cjk i st)"
    by (rule annotate_step_inv)
qed

lemma ruby_pass_length [simp]: "length (ruby_pass old_g G) = length G"
  by (induction G arbitrary: old_g) (simp_all add: Let_def)

text \<open>What the second loop leaves at position \<open>k\<close>.\<close>

lemma ruby_pass_nth:
  "k < length G \<Longrightarrow>
   split (ruby_pass old_g G ! k) =
     (if ruby (G ! k) = RUBY_TOP \<or> ruby (G ! k) = RUBY_ALT
         \<or> (ruby (G ! k) = RUBY_BOTTOM
             \<and> (if k = 0 then ruby old_g else ruby (G ! (k - 1))) = RUBY_BOTTOM)
      then SPLIT_NONE
      else if character (G ! k) = 0 then SPLIT_BEFORE else split (G ! k))"
proof (induction G arbitrary: old_g k)
  case Nil
  then show ?case by simp
next
  case (Cons g G)
  show ?case
  proof (cases k)
    case 0
    then show ?thesis by (simp add: Let_def)
  next
    case (Suc j)
    then have j: "j < length G" using Cons.prems by simp
    define g2 where "g2 = (let g1 = (if character g = 0 then g\<lparr>split := SPLIT_BEFORE\<rparr> else g)
          in if ruby g1 = RUBY_TOP \<or> ruby g1 = RUBY_ALT then g1\<lparr>split := SPLIT_NONE\<rparr>
                else if ruby g1 = RUBY_BOTTOM \<and> ruby old_g = RUBY_BOTTOM
                  then g1\<lparr>split := SPLIT_NONE\<rparr>
                else g1)"
    have r: "ruby g2 = ruby g" by (simp add: g2_def Let_def)
    have "ruby_pass old_g (g # G) ! k = ruby_pass g2 G ! j"
      using Suc by (simp add: g2_def Let_def)
    then show ?thesis
      using Cons.IH [OF j, of g2] Suc r by (cases j) simp_all
  qed
qed

lemma deferred_break_resolved:
  "deferred_break T noi cjk gl k = resolved_before T noi cjk gl k (length gl)"
  by (auto simp add: deferred_break_def resolved_before_def pending_def Bex_def Ball_def)

text \<open>
  C5 (as amended). For every glyph list, with any tables in which the classes WJ and
  CB differ, any tailoring, any \<open>no_ideographs\<close> flag and any CJK profile, after
  \<open>annotate_unicode\<close>: a glyph whose character is not 0 and whose effective break
  class is the space class or the combining mark class never has the split class
  \<open>SPLIT_BEFORE\<close>. A combining mark has \<open>SPLIT_NONE\<close>. A space has
  \<open>SPLIT_INSTEAD\<close> exactly when it is not the first glyph, the next real character
  behind it (with only combining marks, contingent breaks and closing characters
  between) has an indirect or a direct break in the pair table after the previous real
  character, and the second loop does not take the break away for ruby; otherwise it
  has \<open>SPLIT_NONE\<close>. A glyph of character 0 (a displayable) has \<open>SPLIT_BEFORE\<close>
  whatever its class, unless the second loop takes the break away for ruby.
\<close>

theorem annotate_unicode_spacing:
  assumes "BC_WJ T \<noteq> BC_CB T" and "i < length gl"
  shows "(character (gl ! i) = 0 \<longrightarrow>
            split (annotate_unicode T gl no_ideographs cjk ! i) =
              (if ruby_suppressed gl i then SPLIT_NONE else SPLIT_BEFORE))
       \<and> (character (gl ! i) \<noteq> 0 \<and> spacing_class T no_ideographs cjk (gl ! i) \<longrightarrow>
            split (annotate_unicode T gl no_ideographs cjk ! i) =
              (if 1 \<le> i \<and> space_glyph T no_ideographs cjk (gl ! i)
                  \<and> deferred_break T no_ideographs cjk gl i \<and> \<not> ruby_suppressed gl i
               then SPLIT_INSTEAD else SPLIT_NONE))"
proof -
  have ne: "gl \<noteq> []" using assms(2) by auto
  obtain ot sp G where f:
    "fold (annotate_step T no_ideographs cjk) [1..<length gl] (BC_WJ T, 0, gl) = (ot, sp, G)"
    by (cases "fold (annotate_step T no_ideographs cjk) [1..<length gl] (BC_WJ T, 0, gl)")
  have inv: "annotate_inv T no_ideographs cjk gl (length gl) (ot, sp, G)"
    using annotate_loop_inv [OF ne assms(1), of no_ideographs cjk] f by simp
  note d = annotate_invD [OF inv]
  let ?G2 = "set_split 0 SPLIT_NONE G"
  have res: "annotate_unicode T gl no_ideographs cjk = ruby_pass (?G2 ! 0) ?G2"
    using ne f by (simp add: annotate_unicode_def Let_def)
  have il: "i < length ?G2" using assms(2) d(1) by simp
  have prev: "(if i = 0 then ruby (?G2 ! 0) else ruby (?G2 ! (i - 1))) = ruby (gl ! (i - 1))"
    by (simp add: d(3))
  have fin: "split (annotate_unicode T gl no_ideographs cjk ! i) =
      (if ruby_suppressed gl i then SPLIT_NONE
       else if character (gl ! i) = 0 then SPLIT_BEFORE else split (?G2 ! i))"
    unfolding res ruby_pass_nth [OF il] prev
    by (simp add: ruby_suppressed_def d(2) d(3))
  have zero: "split (annotate_unicode T gl no_ideographs cjk ! i) =
              (if ruby_suppressed gl i then SPLIT_NONE else SPLIT_BEFORE)"
    if "character (gl ! i) = 0"
    using fin that by simp
  have spacing: "split (annotate_unicode T gl no_ideographs cjk ! i) =
              (if 1 \<le> i \<and> space_glyph T no_ideographs cjk (gl ! i)
                  \<and> deferred_break T no_ideographs cjk gl i \<and> \<not> ruby_suppressed gl i
               then SPLIT_INSTEAD else SPLIT_NONE)"
    if ch: "character (gl ! i) \<noteq> 0" and sc: "spacing_class T no_ideographs cjk (gl ! i)"
  proof (cases "i = 0")
    case True
    have "split (?G2 ! i) = SPLIT_NONE" using True il by (simp add: split_set_split)
    then show ?thesis using fin ch True by simp
  next
    case False
    then have i1: "1 \<le> i" by simp
    have g2: "split (?G2 ! i) = split (G ! i)" using False il by (simp add: split_set_split)
    show ?thesis
    proof (cases "space_glyph T no_ideographs cjk (gl ! i)")
      case True
      have "split (G ! i) =
              (if deferred_break T no_ideographs cjk gl i then SPLIT_INSTEAD else SPLIT_NONE)"
        using d(8) [OF i1 assms(2) True] by (simp add: deferred_break_resolved)
      then show ?thesis using fin ch g2 True i1 by simp
    next
      case nsp: False
      then have "glyph_class T no_ideographs cjk (gl ! i) = BC_CM T"
        using sc by (simp add: spacing_class_def space_glyph_def glyph_class_def)
      then have "split (G ! i) = SPLIT_NONE" using d(9) [OF i1 assms(2) _ nsp] by simp
      then show ?thesis using fin ch g2 nsp by simp
    qed
  qed
  show ?thesis using zero spacing by blast
qed

theorem annotate_unicode_spacing_witness:
  "split (annotate_unicode sample_pxi
            [mk_glyph 97 SPLIT_NONE 10, mk_glyph 32 SPLIT_BEFORE 5, mk_glyph 98 SPLIT_NONE 10]
            False 0 ! 1) = SPLIT_INSTEAD
   \<and> deferred_break sample_pxi False 0
        [mk_glyph 97 SPLIT_NONE 10, mk_glyph 32 SPLIT_BEFORE 5, mk_glyph 98 SPLIT_NONE 10] 1"
proof -
  let ?gl = "[mk_glyph 97 SPLIT_NONE 10, mk_glyph 32 SPLIT_BEFORE 5, mk_glyph 98 SPLIT_NONE 10]"
  have wj: "BC_WJ sample_pxi \<noteq> BC_CB sample_pxi" by (simp add: sample_pxi_def)
  have cls: "glyph_class sample_pxi False 0 (?gl ! 1) = 39"
    "glyph_class sample_pxi False 0 (?gl ! 2) = 12"
    by (simp_all add: glyph_class_def effective_class_def break_classes_def sample_pxi_def
        mk_glyph_def glyph0_def Let_def)
  have sp: "space_glyph sample_pxi False 0 (?gl ! 1)"
    using cls(1) by (simp add: space_glyph_def sample_pxi_def)
  have sc: "spacing_class sample_pxi False 0 (?gl ! 1)"
    using sp by (simp add: spacing_class_def space_glyph_def glyph_class_def)
  have ch: "character (?gl ! 1) \<noteq> 0" by (simp add: mk_glyph_def glyph0_def)
  have rl: "real_glyph sample_pxi False 0 (?gl ! 2)"
    unfolding real_glyph_def cls(2) by (simp add: sample_pxi_def)
  have bh: "break_here sample_pxi False 0 ?gl 2"
    using rl by (simp add: break_here_def Let_def) (simp add: sample_pxi_def)
  have df: "deferred_break sample_pxi False 0 ?gl 1"
    unfolding deferred_break_def
    by (rule bexI [of _ 2]) (auto simp add: bh)
  have nr: "\<not> ruby_suppressed ?gl 1"
    by (simp add: ruby_suppressed_def mk_glyph_def glyph0_def)
  show ?thesis
    using annotate_unicode_spacing [OF wj, of 1 ?gl False 0] ch sc sp df nr by simp
qed

theorem annotate_unicode_spacing_counterexample:
  "effective_class sample_pxi False 0
     (character ([mk_glyph 97 SPLIT_NONE 10, mk_glyph 0 SPLIT_NONE 10] ! 1)) = BC_CM sample_pxi
   \<and> split (annotate_unicode sample_pxi [mk_glyph 97 SPLIT_NONE 10, mk_glyph 0 SPLIT_NONE 10]
               False 0 ! 1) = SPLIT_BEFORE"
  by (simp add: annotate_unicode_def annotate_step_def effective_class_def break_classes_def
      sample_pxi_def set_split_def mk_glyph_def glyph0_def Let_def upt_rec)

section \<open>The width bound of linebreak_greedy\<close>

lemma slice_empty [simp]: "slice gl a a = []"
  by (simp add: slice_def)

lemma slice_snoc:
  "a \<le> i \<Longrightarrow> i < length gl \<Longrightarrow> slice gl a (Suc i) = slice gl a i @ [gl ! i]"
proof -
  assume a: "a \<le> i" and i: "i < length gl"
  have "Suc i - a = Suc (i - a)" using a by simp
  moreover have "i - a < length (drop a gl)" using a i by simp
  moreover have "drop a gl ! (i - a) = gl ! i" using a i by simp
  ultimately show ?thesis
    by (simp add: slice_def take_Suc_conv_app_nth)
qed

lemma slice_single: "i < length gl \<Longrightarrow> slice gl i (Suc i) = [gl ! i]"
  using slice_snoc [of i i gl] by simp

lemma total_advance_Nil [simp]: "total_advance [] = 0"
  by (simp add: total_advance_def)

lemma measured_advance_Nil [simp]: "measured_advance [] = 0"
  by (simp add: measured_advance_def)

lemma total_advance_snoc:
  "total_advance (xs @ [g]) = total_advance xs + (if counted g then advance g else 0)"
  by (simp add: total_advance_def)

lemma measured_snoc_hanging: "hanging g \<Longrightarrow> measured_advance (xs @ [g]) = measured_advance xs"
  by (simp add: measured_advance_def)

lemma measured_snoc_solid: "\<not> hanging g \<Longrightarrow> measured_advance (xs @ [g]) = total_advance (xs @ [g])"
  by (simp add: measured_advance_def)

lemma demoted_counted: "demoted g g' \<Longrightarrow> counted g' = counted g"
  by (auto simp add: demoted_def counted_def)

lemma demoted_break: "demoted g g' \<Longrightarrow> is_break g' \<Longrightarrow> g' = g"
  by (auto simp add: demoted_def is_break_def)

lemma is_break_not_hanging: "is_break g \<Longrightarrow> \<not> hanging g"
  by (auto simp add: is_break_def hanging_def)

lemma is_break_demoted [simp]: "\<not> is_break (g\<lparr>split := SPLIT_NONE\<rparr>)"
  by (simp add: is_break_def)

lemma exact_step_skip:
  "\<not> counted (lb_glyphs st ! i) \<Longrightarrow> exact_step rw i st = st"
  by (simp add: exact_step_def)

lemma exact_step_ignore:
  "counted (lb_glyphs st ! i) \<Longrightarrow> split (lb_glyphs st ! i) = SPLIT_IGNORE \<Longrightarrow>
   exact_step rw i st = st\<lparr>lb_ignored := lb_ignored st + advance (lb_glyphs st ! i)\<rparr>"
  by (simp add: exact_step_def)

lemma exact_step_solid:
  "counted (lb_glyphs st ! i) \<Longrightarrow> split (lb_glyphs st ! i) \<noteq> SPLIT_IGNORE \<Longrightarrow>
   exact_step rw i st =
     greedy_add i (if lb_x st > lb_width st \<and> lb_split_g st \<noteq> None
                   then greedy_commit rw st else st)"
  by (simp add: exact_step_def)

lemma greedy_add_plain:
  assumes "\<not> is_break (lb_glyphs st ! i)" and "counted (lb_glyphs st ! i)"
  shows "greedy_add i st =
     st\<lparr>lb_x := lb_x st + (advance (lb_glyphs st ! i) + lb_ignored st),
        lb_splitx := lb_splitx st + (advance (lb_glyphs st ! i) + lb_ignored st),
        lb_ignored := 0\<rparr>"
  using assms by (simp add: greedy_add_def is_break_def Let_def)

lemma greedy_add_cand:
  assumes "is_break (lb_glyphs st ! i)"
  shows "lb_glyphs (greedy_add i st) = demote (lb_split_g st) (lb_glyphs st)"
    and "lb_split_g (greedy_add i st) = Some i"
    and "lb_x (greedy_add i st) = lb_x st + (advance (lb_glyphs st ! i) + lb_ignored st)"
    and "lb_ignored (greedy_add i st) = 0"
    and "lb_width (greedy_add i st) = lb_width st"
    and "lb_splitx (greedy_add i st) =
           (if split (lb_glyphs st ! i) = SPLIT_INSTEAD then 0 else advance (lb_glyphs st ! i))"
  using assms by (auto simp add: greedy_add_def is_break_def Let_def)

lemma length_demote [simp]: "length (demote sg G) = length G"
  by (cases sg) (simp_all add: demote_def set_split_def)

lemma nth_demote:
  "demote sg G ! k = (if sg = Some k \<and> k < length G then (G ! k)\<lparr>split := SPLIT_NONE\<rparr> else G ! k)"
proof (cases sg)
  case None
  then show ?thesis by (simp add: demote_def)
next
  case (Some j)
  show ?thesis
  proof (cases "k = j")
    case True
    then show ?thesis
      using Some by (cases "j < length G") (simp_all add: demote_def set_split_def list_update_beyond)
  next
    case False
    then show ?thesis using Some by (simp add: demote_def set_split_def)
  qed
qed

lemma committed_cong:
  "lb_glyphs st' = lb_glyphs st \<Longrightarrow> lb_split_g st' = lb_split_g st \<Longrightarrow>
   committed st' i = committed st i"
  by (rule ext) (simp add: committed_def)

lemma committed_Suc_plain:
  assumes "\<not> is_break (lb_glyphs st ! i)"
  shows "committed st (Suc i) = committed st i"
proof (rule ext)
  fix k
  show "committed st (Suc i) k = committed st i k"
    using assms by (cases "k = i") (auto simp add: committed_def)
qed

lemma committed_Suc_cand:
  assumes "lb_glyphs st' = demote (lb_split_g st) (lb_glyphs st)" and "lb_split_g st' = Some i"
    and "\<And>p. lb_split_g st = Some p \<Longrightarrow> p < i"
  shows "committed st' (Suc i) = committed st i"
proof (rule ext)
  fix k
  show "committed st' (Suc i) k = committed st i k"
  proof (cases "k = i")
    case True
    then show ?thesis using assms(2) by (simp add: committed_def)
  next
    case False
    then show ?thesis
      using assms by (auto simp add: committed_def nth_demote)
  qed
qed

lemma committed_commit:
  assumes "lb_split_g st = Some p" and "p < i" and "p < length (lb_glyphs st)"
    and "is_break (lb_glyphs st ! p)"
  shows "committed (greedy_commit rw st) i = (\<lambda>k. committed st i k \<or> k = p)"
proof (rule ext)
  fix k
  show "committed (greedy_commit rw st) i k = (committed st i k \<or> k = p)"
    using assms by (auto simp add: committed_def greedy_commit_def)
qed

lemma frame_nth:
  "inv_frame gl i st \<Longrightarrow> k < length gl \<Longrightarrow> demoted (gl ! k) (lb_glyphs st ! k)"
  by (simp add: inv_frame_def list_all2_conv_all_nth)

lemma frame_length: "inv_frame gl i st \<Longrightarrow> length (lb_glyphs st) = length gl"
  by (auto simp add: inv_frame_def dest: list_all2_lengthD)

lemma frame_here: "inv_frame gl i st \<Longrightarrow> i < length gl \<Longrightarrow> lb_glyphs st ! i = gl ! i"
  by (simp add: inv_frame_def)

lemma committed_break:
  assumes "inv_frame gl i st" and "committed st i k"
  shows "k < i" and "is_break (gl ! k)" and "lb_glyphs st ! k = gl ! k" and "k < length gl"
proof -
  have k: "k < i" "k < length (lb_glyphs st)" "is_break (lb_glyphs st ! k)"
    using assms(2) by (simp_all add: committed_def)
  have kl: "k < length gl" using k(2) frame_length [OF assms(1)] by simp
  have eq: "lb_glyphs st ! k = gl ! k"
    using demoted_break [OF frame_nth [OF assms(1) kl] k(3)] .
  show "k < i" by (rule k(1))
  show "is_break (gl ! k)" using k(3) eq by simp
  show "lb_glyphs st ! k = gl ! k" by (rule eq)
  show "k < length gl" by (rule kl)
qed

lemma a_cand_Suc:
  "a_cand gl cb a (Suc i) =
     (a_cand gl cb a i \<or> (a \<le> i \<and> is_break (gl ! i) \<and> \<not> (i = a \<and> cb a)))"
  by (auto simp add: a_cand_def less_Suc_eq)

lemma nxt_le: "p < i \<Longrightarrow> nxt gl p \<le> i"
  by (simp add: nxt_def)

lemma inv_x_skip:
  assumes "inv_x gl a i m ig" and "a \<le> i" and "i < length gl" and "\<not> counted (gl ! i)"
  shows "inv_x gl a (Suc i) m ig"
  using assms
  by (simp add: inv_x_def slice_snoc measured_snoc_hanging total_advance_snoc hanging_def)

lemma inv_x_ignore:
  assumes "inv_x gl a i m ig" and "a \<le> i" and "i < length gl"
    and "counted (gl ! i)" and "split (gl ! i) = SPLIT_IGNORE"
  shows "inv_x gl a (Suc i) m (ig + advance (gl ! i))"
  using assms
  by (simp add: inv_x_def slice_snoc measured_snoc_hanging total_advance_snoc hanging_def)

lemma inv_x_solid:
  assumes "inv_x gl a i m ig" and "a \<le> i" and "i < length gl"
    and "counted (gl ! i)" and "split (gl ! i) \<noteq> SPLIT_IGNORE"
  shows "inv_x gl a (Suc i) (m + (advance (gl ! i) + ig)) 0"
  using assms
  by (simp add: inv_x_def slice_snoc measured_snoc_solid total_advance_snoc hanging_def)

lemma inv_parts:
  assumes "greedy_inv gl fw rw i st L"
  shows "inv_frame gl i st" and "inv_line gl (committed st i) i L"
    and "inv_x gl L i (lb_x st) (lb_ignored st)"
    and "inv_width (committed st i) fw rw st L"
    and "inv_pending gl (committed st i) i st L"
    and "inv_done gl (committed st i) fw rw"
  using assms unfolding greedy_inv_def by blast+

lemma pending_None:
  "lb_split_g st = None \<Longrightarrow> inv_pending gl cb i st L = (\<not> a_cand gl cb L i)"
  by (simp add: inv_pending_def)

lemma pending_Some:
  "lb_split_g st = Some p \<Longrightarrow>
   inv_pending gl cb i st L =
     (p < i \<and> L \<le> p \<and> is_break (gl ! p) \<and> lb_glyphs st ! p = gl ! p
      \<and> (\<forall>k. p < k \<and> k < i \<longrightarrow> \<not> is_break (gl ! k))
      \<and> inv_x gl (nxt gl p) i (lb_splitx st) (lb_ignored st)
      \<and> (a_cand gl cb L p \<longrightarrow> measured_advance (slice gl L p) \<le> lb_width st))"
  by (simp add: inv_pending_def)

lemma inv_step_plain:
  assumes inv: "greedy_inv gl fw rw i st L" and i: "i < length gl"
    and nb: "\<not> is_break (gl ! i)"
    and same: "lb_glyphs st' = lb_glyphs st" "lb_split_g st' = lb_split_g st"
      "lb_width st' = lb_width st"
    and x: "inv_x gl L (Suc i) (lb_x st') (lb_ignored st')"
    and sx: "\<And>p. lb_split_g st = Some p \<Longrightarrow>
               inv_x gl (nxt gl p) (Suc i) (lb_splitx st') (lb_ignored st')"
  shows "greedy_inv gl fw rw (Suc i) st' L"
proof -
  note parts = inv_parts [OF inv]
  have fr: "inv_frame gl i st" by (rule parts(1))
  have here: "lb_glyphs st ! i = gl ! i" using fr i by (rule frame_here)
  have "committed st' (Suc i) = committed st (Suc i)"
    by (rule committed_cong) (rule same)+
  also have "\<dots> = committed st i"
    by (rule committed_Suc_plain) (simp add: here nb)
  finally have cb: "committed st' (Suc i) = committed st i" .
  have f: "inv_frame gl (Suc i) st'"
    using fr i unfolding inv_frame_def same(1) by simp
  have l: "inv_line gl (committed st i) (Suc i) L"
    using parts(2) unfolding inv_line_def by simp
  have w: "inv_width (committed st i) fw rw st' L"
    using parts(4) unfolding inv_width_def same(3) by simp
  have p: "inv_pending gl (committed st i) (Suc i) st' L"
  proof (cases "lb_split_g st")
    case None
    then have n': "lb_split_g st' = None" using same(2) by simp
    have "\<not> a_cand gl (committed st i) L i"
      using parts(5) None by (simp add: pending_None)
    then have "\<not> a_cand gl (committed st i) L (Suc i)"
      using nb by (simp add: a_cand_Suc)
    then show ?thesis using n' by (simp add: pending_None)
  next
    case (Some p)
    then have s': "lb_split_g st' = Some p" using same(2) by simp
    have old: "p < i" "L \<le> p" "is_break (gl ! p)" "lb_glyphs st ! p = gl ! p"
      "\<forall>k. p < k \<and> k < i \<longrightarrow> \<not> is_break (gl ! k)"
      "a_cand gl (committed st i) L p \<longrightarrow> measured_advance (slice gl L p) \<le> lb_width st"
      using parts(5) unfolding pending_Some [OF Some] by blast+
    have nc: "\<forall>k. p < k \<and> k < Suc i \<longrightarrow> \<not> is_break (gl ! k)"
      using old(5) nb by (auto simp add: less_Suc_eq)
    show ?thesis
      unfolding pending_Some [OF s'] same
      using old(1,2,3,4) nc sx [OF Some] old(6) by simp
  qed
  have d: "inv_done gl (committed st i) fw rw" by (rule parts(6))
  show ?thesis
    unfolding greedy_inv_def cb using f l x w p d by blast
qed

lemma inv_line_le: "inv_line gl cb i L \<Longrightarrow> L \<le> i"
  by (simp add: inv_line_def)

lemma inv_pending_nxt_le:
  "inv_pending gl cb i st L \<Longrightarrow> lb_split_g st = Some p \<Longrightarrow> nxt gl p \<le> i"
  by (simp add: pending_Some nxt_le)

lemma inv_pending_x:
  "inv_pending gl cb i st L \<Longrightarrow> lb_split_g st = Some p \<Longrightarrow>
   inv_x gl (nxt gl p) i (lb_splitx st) (lb_ignored st)"
  by (simp add: pending_Some)

lemma inv_step_skip:
  assumes inv: "greedy_inv gl fw rw i st L" and i: "i < length gl"
    and nc: "\<not> counted (gl ! i)"
  shows "greedy_inv gl fw rw (Suc i) (exact_step rw' i st) L"
proof -
  note parts = inv_parts [OF inv]
  have here: "lb_glyphs st ! i = gl ! i" using parts(1) i by (rule frame_here)
  have step: "exact_step rw' i st = st"
    by (rule exact_step_skip) (simp add: here nc)
  have nb: "\<not> is_break (gl ! i)" using nc by (simp add: is_break_def)
  have "greedy_inv gl fw rw (Suc i) st L"
  proof (rule inv_step_plain [OF inv i nb])
    show "inv_x gl L (Suc i) (lb_x st) (lb_ignored st)"
      using parts(3) inv_line_le [OF parts(2)] i nc by (rule inv_x_skip)
  next
    fix p assume p: "lb_split_g st = Some p"
    show "inv_x gl (nxt gl p) (Suc i) (lb_splitx st) (lb_ignored st)"
      using inv_pending_x [OF parts(5) p] inv_pending_nxt_le [OF parts(5) p] i nc
      by (rule inv_x_skip)
  qed simp_all
  then show ?thesis by (simp only: step)
qed

lemma inv_step_ignore:
  assumes inv: "greedy_inv gl fw rw i st L" and i: "i < length gl"
    and c: "counted (gl ! i)" and ig: "split (gl ! i) = SPLIT_IGNORE"
  shows "greedy_inv gl fw rw (Suc i) (exact_step rw' i st) L"
proof -
  note parts = inv_parts [OF inv]
  have here: "lb_glyphs st ! i = gl ! i" using parts(1) i by (rule frame_here)
  let ?st' = "st\<lparr>lb_ignored := lb_ignored st + advance (gl ! i)\<rparr>"
  have step: "exact_step rw' i st = ?st'"
    using exact_step_ignore [of st i rw'] c ig by (simp add: here)
  have nb: "\<not> is_break (gl ! i)" using ig by (simp add: is_break_def)
  have "greedy_inv gl fw rw (Suc i) ?st' L"
  proof (rule inv_step_plain [OF inv i nb])
    have "inv_x gl L (Suc i) (lb_x st) (lb_ignored st + advance (gl ! i))"
      using parts(3) inv_line_le [OF parts(2)] i c ig by (rule inv_x_ignore)
    then show "inv_x gl L (Suc i) (lb_x ?st') (lb_ignored ?st')" by simp
  next
    fix p assume p: "lb_split_g st = Some p"
    have "inv_x gl (nxt gl p) (Suc i) (lb_splitx st) (lb_ignored st + advance (gl ! i))"
      using inv_pending_x [OF parts(5) p] inv_pending_nxt_le [OF parts(5) p] i c ig
      by (rule inv_x_ignore)
    then show "inv_x gl (nxt gl p) (Suc i) (lb_splitx ?st') (lb_ignored ?st')" by simp
  qed simp_all
  then show ?thesis by (simp only: step)
qed

lemma inv_add_plain:
  assumes inv: "greedy_inv gl fw rw i st L" and i: "i < length gl"
    and c: "counted (gl ! i)" and ig: "split (gl ! i) \<noteq> SPLIT_IGNORE"
    and nb: "\<not> is_break (gl ! i)"
  shows "greedy_inv gl fw rw (Suc i) (greedy_add i st) L"
proof -
  note parts = inv_parts [OF inv]
  have here: "lb_glyphs st ! i = gl ! i" using parts(1) i by (rule frame_here)
  let ?st' = "st\<lparr>lb_x := lb_x st + (advance (gl ! i) + lb_ignored st),
        lb_splitx := lb_splitx st + (advance (gl ! i) + lb_ignored st),
        lb_ignored := 0\<rparr>"
  have step: "greedy_add i st = ?st'"
    using greedy_add_plain [of st i] c nb by (simp add: here)
  have "greedy_inv gl fw rw (Suc i) ?st' L"
  proof (rule inv_step_plain [OF inv i nb])
    have "inv_x gl L (Suc i) (lb_x st + (advance (gl ! i) + lb_ignored st)) 0"
      using parts(3) inv_line_le [OF parts(2)] i c ig by (rule inv_x_solid)
    then show "inv_x gl L (Suc i) (lb_x ?st') (lb_ignored ?st')" by simp
  next
    fix p assume p: "lb_split_g st = Some p"
    have "inv_x gl (nxt gl p) (Suc i) (lb_splitx st + (advance (gl ! i) + lb_ignored st)) 0"
      using inv_pending_x [OF parts(5) p] inv_pending_nxt_le [OF parts(5) p] i c ig
      by (rule inv_x_solid)
    then show "inv_x gl (nxt gl p) (Suc i) (lb_splitx ?st') (lb_ignored ?st')" by simp
  qed simp_all
  then show ?thesis by (simp only: step)
qed

lemma inv_add_cand:
  assumes inv: "greedy_inv gl fw rw i st L" and i: "i < length gl"
    and br: "is_break (gl ! i)"
    and fits: "lb_x st \<le> lb_width st \<or> lb_split_g st = None"
  shows "greedy_inv gl fw rw (Suc i) (greedy_add i st) L"
proof -
  note parts = inv_parts [OF inv]
  let ?cb = "committed st i"
  let ?st' = "greedy_add i st"
  have here: "lb_glyphs st ! i = gl ! i" using parts(1) i by (rule frame_here)
  have br': "is_break (lb_glyphs st ! i)" using br here by simp
  note add = greedy_add_cand [OF br']
  have c: "counted (gl ! i)" and ni: "split (gl ! i) \<noteq> SPLIT_IGNORE"
    using br by (auto simp add: is_break_def)
  have len: "length (lb_glyphs st) = length gl" using parts(1) by (rule frame_length)
  have pl: "p < i" if "lb_split_g st = Some p" for p
    using parts(5) that by (simp add: pending_Some)
  have cb: "committed ?st' (Suc i) = ?cb"
    using add(1) add(2) pl by (rule committed_Suc_cand)
  have f: "inv_frame gl (Suc i) ?st'"
    unfolding inv_frame_def add(1)
  proof (intro conjI allI impI)
    show "Suc i \<le> length gl" using i by simp
    show "list_all2 demoted gl (demote (lb_split_g st) (lb_glyphs st))"
      using parts(1) by (simp add: inv_frame_def demoted_demote)
  next
    fix k assume k: "Suc i \<le> k \<and> k < length gl"
    then have "lb_split_g st \<noteq> Some k" using pl by force
    then have "demote (lb_split_g st) (lb_glyphs st) ! k = lb_glyphs st ! k"
      by (simp add: nth_demote)
    then show "demote (lb_split_g st) (lb_glyphs st) ! k = gl ! k"
      using parts(1) k by (simp add: inv_frame_def)
  qed
  have l: "inv_line gl ?cb (Suc i) L"
    using parts(2) unfolding inv_line_def by simp
  have x: "inv_x gl L (Suc i) (lb_x ?st') (lb_ignored ?st')"
    unfolding add(3) add(4) here
    using parts(3) inv_line_le [OF parts(2)] i c ni by (rule inv_x_solid)
  have w: "inv_width ?cb fw rw ?st' L"
    using parts(4) unfolding inv_width_def add(5) by simp
  have ni': "lb_split_g st \<noteq> Some i" using pl by force
  have g': "lb_glyphs ?st' ! i = gl ! i"
    unfolding add(1) using ni' here by (simp add: nth_demote)
  have sx: "inv_x gl (nxt gl i) (Suc i) (lb_splitx ?st') (lb_ignored ?st')"
  proof (cases "split (gl ! i) = SPLIT_INSTEAD")
    case True
    then show ?thesis
      unfolding add(4) add(6) here by (simp add: inv_x_def nxt_def)
  next
    case False
    have nh: "\<not> hanging (gl ! i)" using br by (rule is_break_not_hanging)
    have "measured_advance [gl ! i] = total_advance ([] @ [gl ! i])"
      using measured_snoc_solid [OF nh, of "[]"] by simp
    also have "\<dots> = advance (gl ! i)" using c by (simp add: total_advance_def)
    finally have "measured_advance [gl ! i] = advance (gl ! i)" .
    moreover have "total_advance [gl ! i] = advance (gl ! i)"
      using c by (simp add: total_advance_def)
    ultimately show ?thesis
      unfolding add(4) add(6) here using False i
      by (simp add: inv_x_def nxt_def slice_single)
  qed
  have fit: "measured_advance (slice gl L i) \<le> lb_width st" if "a_cand gl ?cb L i"
  proof -
    from fits show ?thesis
    proof
      assume "lb_x st \<le> lb_width st"
      then show ?thesis using parts(3) by (simp add: inv_x_def)
    next
      assume "lb_split_g st = None"
      then have "\<not> a_cand gl ?cb L i" using parts(5) by (simp add: pending_None)
      then show ?thesis using that by simp
    qed
  qed
  have none: "\<forall>k. i < k \<and> k < Suc i \<longrightarrow> \<not> is_break (gl ! k)" by auto
  have p: "inv_pending gl ?cb (Suc i) ?st' L"
    unfolding pending_Some [OF add(2)] add(5)
    using inv_line_le [OF parts(2)] br g' sx fit none by blast
  have d: "inv_done gl ?cb fw rw" by (rule parts(6))
  show ?thesis
    unfolding greedy_inv_def cb using f l x w p d by blast
qed

lemma span_start_unique:
  assumes line: "inv_line gl cb i L" and Lb: "L \<le> b" and nb: "\<not> cb b"
    and agree: "\<And>k. k < b \<Longrightarrow> cb' k = cb k"
    and span: "a_span gl cb' a b" and ab: "a < b"
  shows "a = L"
proof -
  have st: "a_start gl cb L" and after: "\<And>k. L < k \<Longrightarrow> \<not> cb k"
    and ni: "\<not> a_instead gl cb L"
    using line by (simp_all add: inv_line_def)
  have sa: "a_start gl cb' a" and inner: "\<And>k. a < k \<Longrightarrow> k < b \<Longrightarrow> \<not> cb' k"
    and nia: "\<not> a_instead gl cb' a"
    using span ab by (simp_all add: a_span_def)
  have "\<not> a < L"
  proof
    assume aL: "a < L"
    then have "L \<noteq> 0" by simp
    with st consider (ins) "0 < L" "a_instead gl cb (L - 1)"
      | (bef) "cb L" "split (gl ! L) \<noteq> SPLIT_INSTEAD"
      unfolding a_start_def by blast
    then show False
    proof cases
      case ins
      have lt: "L - 1 < b" using ins(1) Lb by simp
      have c': "cb' (L - 1)" using ins(2) agree [OF lt] by (simp add: a_instead_def)
      show False
      proof (cases "a = L - 1")
        case True
        then have "a_instead gl cb' a" using ins(2) c' by (simp add: a_instead_def)
        then show False using nia by simp
      next
        case False
        then have "a < L - 1" using aL by simp
        then show False using inner [of "L - 1"] lt c' by simp
      qed
    next
      case bef
      have "L \<noteq> b" using bef(1) nb by auto
      then have lt: "L < b" using Lb by simp
      then have "cb' L" using bef(1) agree by simp
      then show False using inner [OF aL lt] by simp
    qed
  qed
  moreover have "\<not> L < a"
  proof
    assume La: "L < a"
    then have "a \<noteq> 0" by simp
    with sa consider (ins) "0 < a" "a_instead gl cb' (a - 1)"
      | (bef) "cb' a"
      unfolding a_start_def by blast
    then show False
    proof cases
      case ins
      have lt: "a - 1 < b" using ab by simp
      have c: "cb (a - 1)" using ins(2) agree [OF lt] by (simp add: a_instead_def)
      show False
      proof (cases "L = a - 1")
        case True
        then have "a_instead gl cb L" using ins(2) c by (simp add: a_instead_def)
        then show False using ni by simp
      next
        case False
        then have "L < a - 1" using La by simp
        then show False using after c by simp
      qed
    next
      case bef
      then have "cb a" using agree [OF ab] by simp
      then show False using after [OF La] by simp
    qed
  qed
  ultimately show ?thesis by simp
qed

lemma inv_commit:
  assumes inv: "greedy_inv gl fw rw i st L" and p: "lb_split_g st = Some p"
  shows "greedy_inv gl fw rw i (greedy_commit (real_of_int rw) st) (nxt gl p)"
proof -
  note parts = inv_parts [OF inv]
  let ?cb = "committed st i"
  let ?st' = "greedy_commit (real_of_int rw) st"
  let ?cb' = "\<lambda>k. ?cb k \<or> k = p"
  have old: "p < i" "L \<le> p" "is_break (gl ! p)" "lb_glyphs st ! p = gl ! p"
    "\<And>k. p < k \<Longrightarrow> k < i \<Longrightarrow> \<not> is_break (gl ! k)"
    "inv_x gl (nxt gl p) i (lb_splitx st) (lb_ignored st)"
    "a_cand gl ?cb L p \<Longrightarrow> measured_advance (slice gl L p) \<le> lb_width st"
    using parts(5) unfolding pending_Some [OF p] by blast+
  have len: "length (lb_glyphs st) = length gl" using parts(1) by (rule frame_length)
  have il: "i \<le> length gl" using parts(1) by (simp add: inv_frame_def)
  have cbk: "k < i \<and> is_break (gl ! k)" if "?cb k" for k
    using committed_break [OF parts(1) that] by simp
  have ncp: "\<not> ?cb p" using p by (simp add: committed_def)
  have above: "\<not> ?cb k" if "p < k" for k
    using cbk [of k] old(5) [OF that] by blast
  have cb: "committed ?st' i = ?cb'"
    using p old(1) old(3) old(4) len il by (intro committed_commit) simp_all
  have field: "lb_glyphs ?st' = lb_glyphs st" "lb_split_g ?st' = None"
    "lb_x ?st' = lb_splitx st" "lb_ignored ?st' = lb_ignored st"
    "lb_width ?st' = real_of_int rw"
    by (simp_all add: greedy_commit_def)
  have f: "inv_frame gl i ?st'"
    using parts(1) unfolding inv_frame_def field by simp
  have nle: "nxt gl p \<le> i" using old(1) by (rule nxt_le)
  have pn: "p \<le> nxt gl p" by (simp add: nxt_def)
  have l: "inv_line gl ?cb' i (nxt gl p)"
    unfolding inv_line_def
  proof (intro conjI allI impI)
    show "nxt gl p \<le> i" by (rule nle)
    show "a_start gl ?cb' (nxt gl p)"
      by (simp add: a_start_def a_instead_def nxt_def)
    show "\<not> (?cb k \<or> k = p)" if "nxt gl p < k" for k
      using that pn above [of k] by simp
    show "\<not> a_instead gl ?cb' (nxt gl p)"
      using above [of "Suc p"] by (auto simp add: a_instead_def nxt_def)
  qed
  have x: "inv_x gl (nxt gl p) i (lb_x ?st') (lb_ignored ?st')"
    unfolding field by (rule old(6))
  have w: "inv_width ?cb' fw rw ?st' (nxt gl p)"
    unfolding inv_width_def field by (auto simp add: nxt_def)
  have pe: "inv_pending gl ?cb' i ?st' (nxt gl p)"
    unfolding pending_None [OF field(2)]
  proof
    assume "a_cand gl ?cb' (nxt gl p) i"
    then obtain k where k: "nxt gl p \<le> k" "k < i" "is_break (gl ! k)"
      "\<not> (k = nxt gl p \<and> (?cb (nxt gl p) \<or> nxt gl p = p))"
      unfolding a_cand_def by blast
    have "p \<le> k" using pn k(1) by simp
    moreover have "\<not> p < k" using old(5) k(2,3) by blast
    ultimately have "k = p" by simp
    then have "nxt gl p = p" using k(1) pn by simp
    then show False using k(4) \<open>k = p\<close> by simp
  qed
  have d: "inv_done gl ?cb' fw rw"
    unfolding inv_done_def
  proof (intro allI impI)
    fix a b
    assume h: "(?cb b \<or> b = p) \<and> a_span gl ?cb' a b \<and> a_cand gl ?cb' a b"
    then have span: "a_span gl ?cb' a b" and cand: "a_cand gl ?cb' a b" by simp_all
    have ab: "a < b" using cand by (auto simp add: a_cand_def)
    have bp: "b \<le> p"
    proof (rule ccontr)
      assume "\<not> b \<le> p"
      then have pb: "p < b" by simp
      then have "\<not> ?cb b" by (rule above)
      then show False using h pb by auto
    qed
    have agree: "?cb' k = ?cb k" if "k < b" for k using that bp by auto
    have cand_old: "a_cand gl ?cb a b"
      using cand agree [OF ab] by (simp add: a_cand_def)
    have budget: "a_budget ?cb' fw rw a b = a_budget ?cb fw rw a b"
      using agree [of 0] by (auto simp add: a_budget_def)
    show "measured_advance (slice gl a b) \<le> a_budget ?cb' fw rw a b"
    proof (cases "b = p")
      case True
      have "a = L"
        using parts(2) old(2) ncp agree span ab unfolding True
        by (rule span_start_unique)
      then have "measured_advance (slice gl a b) \<le> lb_width st"
        using old(7) cand_old True by simp
      moreover have "lb_width st = a_budget ?cb fw rw a b"
        using parts(4) cbk [of 0] ab \<open>a = L\<close> by (auto simp add: inv_width_def a_budget_def)
      ultimately show ?thesis using budget by simp
    next
      case False
      then have cbb: "?cb b" using h by simp
      have span_old: "a_span gl ?cb a b"
        using span ab agree unfolding a_span_def a_start_def a_instead_def
        by (metis One_nat_def Suc_pred diff_less_Suc less_Suc_eq less_imp_diff_less zero_less_one)
      have "measured_advance (slice gl a b) \<le> a_budget ?cb fw rw a b"
        using parts(6) cbb span_old cand_old unfolding inv_done_def by blast
      then show ?thesis using budget by simp
    qed
  qed
  show ?thesis
    unfolding greedy_inv_def cb using f l x w pe d by blast
qed

lemma inv_step:
  assumes inv: "greedy_inv gl fw rw i st L" and i: "i < length gl"
  shows "\<exists>L'. greedy_inv gl fw rw (Suc i) (exact_step (real_of_int rw) i st) L'"
proof -
  have here: "lb_glyphs st ! i = gl ! i"
    using inv_parts(1) [OF inv] i by (rule frame_here)
  consider (skip) "\<not> counted (gl ! i)"
    | (ignore) "counted (gl ! i)" "split (gl ! i) = SPLIT_IGNORE"
    | (solid) "counted (gl ! i)" "split (gl ! i) \<noteq> SPLIT_IGNORE"
    by blast
  then show ?thesis
  proof cases
    case skip
    then show ?thesis using inv_step_skip [OF inv i] by blast
  next
    case ignore
    then show ?thesis using inv_step_ignore [OF inv i] by blast
  next
    case solid
    let ?st1 = "if lb_x st > lb_width st \<and> lb_split_g st \<noteq> None
                then greedy_commit (real_of_int rw) st else st"
    have step: "exact_step (real_of_int rw) i st = greedy_add i ?st1"
      using exact_step_solid [of st i "real_of_int rw"] solid here by simp
    have "\<exists>L1. greedy_inv gl fw rw i ?st1 L1
            \<and> (lb_x ?st1 \<le> lb_width ?st1 \<or> lb_split_g ?st1 = None)"
    proof (cases "lb_x st > lb_width st \<and> lb_split_g st \<noteq> None")
      case True
      then obtain p where p: "lb_split_g st = Some p" by auto
      have "greedy_inv gl fw rw i (greedy_commit (real_of_int rw) st) (nxt gl p)"
        using inv p by (rule inv_commit)
      moreover have "lb_split_g (greedy_commit (real_of_int rw) st) = None"
        by (simp add: greedy_commit_def)
      ultimately show ?thesis using True by auto
    next
      case False
      then show ?thesis using inv by auto
    qed
    then obtain L1 where inv1: "greedy_inv gl fw rw i ?st1 L1"
      and fits: "lb_x ?st1 \<le> lb_width ?st1 \<or> lb_split_g ?st1 = None"
      by blast
    have "greedy_inv gl fw rw (Suc i) (greedy_add i ?st1) L1"
    proof (cases "is_break (gl ! i)")
      case True
      show ?thesis using inv1 i True fits by (rule inv_add_cand)
    next
      case False
      show ?thesis using inv1 i solid False by (rule inv_add_plain)
    qed
    then show ?thesis unfolding step by blast
  qed
qed

lemma inv_init:
  assumes "f32 (real_of_int fw) = real_of_int fw"
  shows "greedy_inv gl fw rw 0 (greedy_init gl fw) 0"
proof -
  have c: "committed (greedy_init gl fw) 0 = (\<lambda>k. False)"
    by (rule ext) (simp add: committed_def)
  show ?thesis
    unfolding greedy_inv_def c
    by (simp add: inv_frame_def inv_line_def inv_x_def inv_width_def inv_pending_def
        inv_done_def greedy_init_def a_start_def a_instead_def a_cand_def
        list_all2_conv_all_nth demoted_def assms)
qed

text \<open>
  The sums of the loop are accumulated advances of runs of the list, so that under
  \<open>exact_sums\<close> no addition of the loop rounds, and the loop body is \<open>exact_step\<close>.
\<close>

lemma total_advance_append:
  "total_advance (xs @ ys) = total_advance xs + total_advance ys"
  by (simp add: total_advance_def)

lemma slice_split:
  assumes "a \<le> j" and "j \<le> i"
  shows "slice gl a i = slice gl a j @ slice gl j i"
proof -
  have "i - a = (j - a) + (i - j)" using assms by simp
  then have "take (i - a) (drop a gl) = take (j - a) (drop a gl) @ take (i - j) (drop (j - a) (drop a gl))"
    by (simp only: take_add)
  moreover have "drop (j - a) (drop a gl) = drop j gl" using assms(1) by simp
  ultimately show ?thesis by (simp add: slice_def)
qed

lemma dropWhile_rev_take: "\<exists>m \<le> length seg. rev (dropWhile P (rev seg)) = take m seg"
proof (induction seg rule: rev_induct)
  case Nil
  then show ?case by simp
next
  case (snoc g seg)
  show ?case
  proof (cases "P g")
    case True
    obtain m where m: "m \<le> length seg" "rev (dropWhile P (rev seg)) = take m seg"
      using snoc by blast
    have "rev (dropWhile P (rev (seg @ [g]))) = take m (seg @ [g])"
      using True m by simp
    then show ?thesis using m(1) by (intro exI [of _ m]) simp
  next
    case False
    then have "rev (dropWhile P (rev (seg @ [g]))) = take (length (seg @ [g])) (seg @ [g])"
      by simp
    then show ?thesis by blast
  qed
qed

lemma measured_prefix:
  assumes "a \<le> i" and "i \<le> length gl"
  shows "\<exists>j. a \<le> j \<and> j \<le> i \<and> measured_advance (slice gl a i) = total_advance (slice gl a j)"
proof -
  obtain m where m: "m \<le> length (slice gl a i)"
    "rev (dropWhile hanging (rev (slice gl a i))) = take m (slice gl a i)"
    using dropWhile_rev_take [of "slice gl a i" hanging] by blast
  have len: "length (slice gl a i) = i - a" using assms by (simp add: slice_def)
  have "take m (slice gl a i) = slice gl a (a + m)"
    using m(1) len by (simp add: slice_def min_def)
  then have "measured_advance (slice gl a i) = total_advance (slice gl a (a + m))"
    using m(2) by (simp add: measured_advance_def)
  moreover have "a \<le> a + m" "a + m \<le> i" using m(1) len assms(1) by simp_all
  ultimately show ?thesis by blast
qed

lemma exact_slice:
  "exact_sums gl \<Longrightarrow> a \<le> b \<Longrightarrow> b \<le> length gl \<Longrightarrow>
   f32 (total_advance (slice gl a b)) = total_advance (slice gl a b)"
  by (simp add: exact_sums_def is_f32_def)

lemma inv_x_exact:
  assumes inv: "inv_x gl a i m ig" and a: "a \<le> i" and i: "i < length gl"
    and c: "counted (gl ! i)" and ex: "exact_sums gl"
  shows "f32 (ig + advance (gl ! i)) = ig + advance (gl ! i)"
    and "f32 (m + (advance (gl ! i) + ig)) = m + (advance (gl ! i) + ig)"
proof -
  have m: "m = measured_advance (slice gl a i)" and t: "m + ig = total_advance (slice gl a i)"
    using inv by (simp_all add: inv_x_def)
  obtain j where j: "a \<le> j" "j \<le> i" "measured_advance (slice gl a i) = total_advance (slice gl a j)"
    using measured_prefix [of a i gl] a i by auto
  have "total_advance (slice gl a i) = total_advance (slice gl a j) + total_advance (slice gl j i)"
    using slice_split [OF j(1,2), of gl] by (simp add: total_advance_append)
  then have ig: "ig = total_advance (slice gl j i)" using m t j(3) by simp
  have "total_advance (slice gl j (Suc i)) = ig + advance (gl ! i)"
    using j(2) i c ig by (simp add: slice_snoc total_advance_snoc)
  moreover have "f32 (total_advance (slice gl j (Suc i))) = total_advance (slice gl j (Suc i))"
    using ex j(2) i by (intro exact_slice) simp_all
  ultimately show "f32 (ig + advance (gl ! i)) = ig + advance (gl ! i)" by simp
  have "total_advance (slice gl a (Suc i)) = m + (advance (gl ! i) + ig)"
    using a i c t by (simp add: slice_snoc total_advance_snoc)
  moreover have "f32 (total_advance (slice gl a (Suc i))) = total_advance (slice gl a (Suc i))"
    using ex a i by (intro exact_slice) simp_all
  ultimately show "f32 (m + (advance (gl ! i) + ig)) = m + (advance (gl ! i) + ig)" by simp
qed

lemma greedy_step_exact:
  assumes inv: "greedy_inv gl fw rw i st L" and i: "i < length gl"
    and ex: "exact_sums gl" and eq: "lb_split_g st = None \<longrightarrow> lb_splitx st = lb_x st"
  shows "greedy_step rw' i st = exact_step rw' i st"
proof (cases "counted (gl ! i)")
  case False
  have here: "lb_glyphs st ! i = gl ! i"
    using inv_parts(1) [OF inv] i by (rule frame_here)
  show ?thesis
    using False by (auto simp add: greedy_step_def exact_step_def here counted_def Let_def)
next
  case True
  note parts = inv_parts [OF inv]
  have here: "lb_glyphs st ! i = gl ! i" using parts(1) i by (rule frame_here)
  note xs = inv_x_exact [OF parts(3) inv_line_le [OF parts(2)] i True ex]
  have d: "f32 (advance (gl ! i) + lb_ignored st) = advance (gl ! i) + lb_ignored st"
    using xs(1) by (simp add: add.commute)
  have sx: "f32 (lb_splitx st + (advance (gl ! i) + lb_ignored st))
              = lb_splitx st + (advance (gl ! i) + lb_ignored st)"
  proof (cases "lb_split_g st")
    case None
    then show ?thesis using eq xs(2) by simp
  next
    case (Some p)
    show ?thesis
      using inv_pending_x [OF parts(5) Some] inv_pending_nxt_le [OF parts(5) Some] i True ex
      by (rule inv_x_exact(2))
  qed
  have c: "ruby (gl ! i) \<noteq> RUBY_TOP" "ruby (gl ! i) \<noteq> RUBY_ALT"
    using True by (simp_all add: counted_def)
  show ?thesis
  proof (cases "split (gl ! i) = SPLIT_IGNORE")
    case ig: True
    show ?thesis
      using True c ig xs(1) by (simp add: greedy_step_def exact_step_def here Let_def)
  next
    case solid: False
    show ?thesis
      using True c solid d xs(2) sx
      by (auto simp add: greedy_step_def exact_step_def greedy_add_def greedy_commit_def here Let_def)
  qed
qed

lemma exact_step_eq:
  assumes "lb_split_g st = None \<longrightarrow> lb_splitx st = lb_x st"
  shows "lb_split_g (exact_step rw' i st) = None \<longrightarrow>
         lb_splitx (exact_step rw' i st) = lb_x (exact_step rw' i st)"
  using assms by (auto simp add: exact_step_def greedy_add_def greedy_commit_def Let_def)

lemma greedy_loop_inv:
  assumes fw: "f32 (real_of_int fw) = real_of_int fw"
    and rw: "f32 (real_of_int rw) = real_of_int rw" and ex: "exact_sums gl"
  shows "\<exists>L. greedy_inv gl fw rw (length gl) (greedy_loop gl fw rw) L"
proof -
  let ?P = "\<lambda>i (st::greedy_state).
              (\<exists>L. greedy_inv gl fw rw i st L)
              \<and> (lb_split_g st = None \<longrightarrow> lb_splitx st = lb_x st)"
  have "?P (length gl) (fold (greedy_step (real_of_int rw)) [0..<length gl] (greedy_init gl fw))"
  proof (rule fold_upt_invariant [where P = ?P])
    show "?P 0 (greedy_init gl fw)"
      using inv_init [OF fw] by (auto simp add: greedy_init_def)
  next
    fix i and st :: greedy_state
    assume i: "i < length gl" and P: "?P i st"
    then obtain L where inv: "greedy_inv gl fw rw i st L" by blast
    have eq: "lb_split_g st = None \<longrightarrow> lb_splitx st = lb_x st" using P by simp
    have step: "greedy_step (real_of_int rw) i st = exact_step (real_of_int rw) i st"
      using inv i ex eq by (rule greedy_step_exact)
    show "?P (Suc i) (greedy_step (real_of_int rw) i st)"
      unfolding step using inv_step [OF inv i] exact_step_eq [OF eq] by blast
  qed
  then show ?thesis by (simp add: greedy_loop_def rw)
qed

lemma final_lines:
  assumes inv: "greedy_inv gl fw rw (length gl) st L"
    and fits: "lb_x st \<le> lb_width st \<or> lb_split_g st = None"
    and H: "H = demote (lb_split_g st) (lb_glyphs st)"
    and line: "is_line H a b" and cand: "candidate_on_line gl H a b"
  shows "measured_advance (slice gl a b) \<le> line_budget H fw rw a b"
proof -
  note parts = inv_parts [OF inv]
  let ?n = "length gl"
  let ?cb = "committed st ?n"
  have len: "length (lb_glyphs st) = ?n" using parts(1) by (rule frame_length)
  have lenH: "length H = ?n" using H len by simp
  have brk: "break_at H k = ?cb k" for k
    unfolding break_at_def committed_def H
    by (auto simp add: nth_demote len)
  have same: "H ! k = gl ! k" if "?cb k" for k
  proof -
    have "lb_split_g st \<noteq> Some k" using that by (simp add: committed_def)
    then have "H ! k = lb_glyphs st ! k" unfolding H by (simp add: nth_demote)
    then show ?thesis using committed_break(3) [OF parts(1) that] by simp
  qed
  have cbn: "\<not> ?cb ?n" by (simp add: committed_def)
  have cbl: "k < ?n" if "?cb k" for k using that by (simp add: committed_def)
  have ab: "a < b" using cand by (auto simp add: candidate_on_line_def)
  have ble: "b \<le> ?n" using line lenH by (simp add: is_line_def)
  have ends: "b = ?n \<or> ?cb b" using line lenH brk by (simp add: is_line_def)
  have start: "a_start gl ?cb a"
  proof -
    from line consider "a = 0"
      | "0 < a" "break_at H (a - 1)" "split (H ! (a - 1)) = SPLIT_INSTEAD"
      | "break_at H a" "split (H ! a) = SPLIT_BEFORE"
      unfolding is_line_def by blast
    then show ?thesis
    proof cases
      case 1
      then show ?thesis by (simp add: a_start_def)
    next
      case 2
      then have "?cb (a - 1)" using brk by simp
      then show ?thesis using 2 same [of "a - 1"] by (simp add: a_start_def a_instead_def)
    next
      case 3
      then have "?cb a" using brk by simp
      then show ?thesis using 3 same [of a] by (simp add: a_start_def)
    qed
  qed
  have inner: "\<not> ?cb k" if "a < k" "k < b" for k
    using line that brk by (auto simp add: is_line_def)
  have nins: "\<not> a_instead gl ?cb a"
  proof
    assume ai: "a_instead gl ?cb a"
    then have "?cb a" by (simp add: a_instead_def)
    then have "break_at H a" "split (H ! a) = SPLIT_INSTEAD"
      using ai brk same [of a] by (simp_all add: a_instead_def)
    then show False using line ab by (simp add: is_line_def)
  qed
  have span: "a_span gl ?cb a b"
    unfolding a_span_def using ab start inner nins by auto
  have acand: "a_cand gl ?cb a b"
    using cand brk unfolding candidate_on_line_def a_cand_def by auto
  have budget: "line_budget H fw rw a b = a_budget ?cb fw rw a b"
    by (simp add: line_budget_def a_budget_def brk)
  show ?thesis
  proof (cases "?cb b")
    case True
    then have "measured_advance (slice gl a b) \<le> a_budget ?cb fw rw a b"
      using parts(6) span acand unfolding inv_done_def by blast
    then show ?thesis using budget by simp
  next
    case False
    then have bn: "b = ?n" using ends by simp
    have aL: "a = L"
      using parts(2) _ cbn _ span [unfolded bn] ab [unfolded bn]
    proof (rule span_start_unique)
      show "L \<le> ?n" using parts(2) by (rule inv_line_le)
    qed simp
    have "lb_split_g st \<noteq> None"
    proof
      assume "lb_split_g st = None"
      then have "\<not> a_cand gl ?cb L ?n" using parts(5) by (simp add: pending_None)
      then show False using acand aL bn by simp
    qed
    then have "lb_x st \<le> lb_width st" using fits by auto
    then have "measured_advance (slice gl a b) \<le> lb_width st"
      using parts(3) aL bn by (simp add: inv_x_def)
    moreover have "lb_width st = a_budget ?cb fw rw a b"
      using parts(4) aL cbl [of 0] ab by (auto simp add: inv_width_def a_budget_def)
    ultimately show ?thesis using budget by simp
  qed
qed

lemma hanging_example_line:
  "is_line (linebreak_greedy hanging_example 20 20) 0 6"
  unfolding hanging_example_run
  by (simp add: is_line_def break_at_def is_break_def counted_def mk_glyph_def glyph0_def
      greaterThanLessThan_upt upt_rec)

lemma hanging_example_budget:
  "line_budget (linebreak_greedy hanging_example 20 20) 20 20 0 6 = 20"
  unfolding hanging_example_run
  by (simp add: line_budget_def break_at_def is_break_def counted_def mk_glyph_def glyph0_def)

lemma hanging_example_cand:
  "candidate_on_line hanging_example (linebreak_greedy hanging_example 20 20) 0 6"
  unfolding hanging_example_run candidate_on_line_def
  by (rule bexI [of _ 1])
     (simp_all add: hanging_example_def is_break_def counted_def mk_glyph_def glyph0_def)

lemma hanging_example_measured:
  "measured_advance (slice hanging_example 0 6) = 15"
  by (simp add: measured_advance_def total_advance_def slice_def hanging_example_def hanging_def
      counted_def mk_glyph_def glyph0_def)

lemma hanging_example_totals:
  "total_advance (slice hanging_example 0 4) = 20"
  "total_advance (slice hanging_example 0 5) = 25"
  by (simp_all add: total_advance_def slice_def hanging_example_def counted_def mk_glyph_def
      glyph0_def)

text \<open>
  Whole advances whose total is below \<open>2 ^ 24\<close> have exact sums.
\<close>

lemma total_advance_nat:
  "\<forall>g\<in>set seg. \<exists>n::nat. advance g = real n \<Longrightarrow> \<exists>m::nat. total_advance seg = real m"
proof (induction seg)
  case Nil
  show ?case by (intro exI [of _ 0]) simp
next
  case (Cons g seg)
  obtain m :: nat where m: "total_advance seg = real m" using Cons by auto
  obtain n :: nat where n: "advance g = real n" using Cons.prems by auto
  show ?case
  proof (cases "counted g")
    case True
    then have "total_advance (g # seg) = real (n + m)"
      using m n by (simp add: total_advance_def)
    then show ?thesis by blast
  next
    case False
    then have "total_advance (g # seg) = real m" using m by (simp add: total_advance_def)
    then show ?thesis by blast
  qed
qed

lemma exact_sums_nat:
  assumes nat: "\<forall>g\<in>set gl. \<exists>n::nat. advance g = real n" and top: "total_advance gl < 2 ^ 24"
  shows "exact_sums gl"
  unfolding exact_sums_def
proof (intro allI impI)
  fix a b assume ab: "a \<le> b \<and> b \<le> length gl"
  have gl: "gl = take a gl @ slice gl a b @ drop b gl"
  proof -
    have e: "b - a + a = b" using ab by simp
    have "drop a gl = take (b - a) (drop a gl) @ drop (b - a) (drop a gl)"
      by (rule append_take_drop_id [symmetric])
    also have "drop (b - a) (drop a gl) = drop b gl" by (simp only: drop_drop e)
    finally have "drop a gl = slice gl a b @ drop b gl" by (simp only: slice_def)
    then have "take a gl @ drop a gl = take a gl @ slice gl a b @ drop b gl" by simp
    then show ?thesis by simp
  qed
  have sub: "\<forall>g\<in>set seg. \<exists>n::nat. advance g = real n" if "set seg \<subseteq> set gl" for seg
    using nat that by blast
  obtain m1 :: nat where m1: "total_advance (take a gl) = real m1"
    using total_advance_nat [OF sub [of "take a gl"]] by (auto dest: in_set_takeD)
  obtain m2 :: nat where m2: "total_advance (slice gl a b) = real m2"
    using total_advance_nat [OF sub [of "slice gl a b"]]
    by (auto simp add: slice_def dest: in_set_takeD in_set_dropD)
  obtain m3 :: nat where m3: "total_advance (drop b gl) = real m3"
    using total_advance_nat [OF sub [of "drop b gl"]] by (auto dest: in_set_dropD)
  have "total_advance gl = real m1 + real m2 + real m3"
    by (subst gl) (simp add: total_advance_append m1 m2 m3)
  then have "real m2 < 2 ^ 24" using top by simp
  then have "real m2 < real (2 ^ 24)" by simp
  then have "m2 < 2 ^ 24" by (simp only: of_nat_less_iff)
  then have "\<bar>int m2\<bar> < 2 ^ 24" by simp
  then have "is_f32 (real_of_int (int m2))" by (rule is_f32_int)
  then show "is_f32 (total_advance (slice gl a b))" by (simp add: m2)
qed

lemma hanging_example_exact: "exact_sums hanging_example"
proof (rule exact_sums_nat)
  have "advance g = real 5 \<or> advance g = real 10" if "g \<in> set hanging_example" for g
    using that by (auto simp add: hanging_example_def mk_glyph_def glyph0_def)
  then show "\<forall>g\<in>set hanging_example. \<exists>n::nat. advance g = real n" by blast
  show "total_advance hanging_example < 2 ^ 24"
    by (simp add: total_advance_def hanging_example_def counted_def mk_glyph_def glyph0_def)
qed

text \<open>
  Without exact sums the bound can fail. For \<open>rounding_example\<close> and the widths 27
  the loop ends with \<open>x = 27\<close>, which is not above the width, so the pending break
  at the space is given up: the list is left as one line, on which a candidate existed,
  and the accumulated advance of the line is above 27.
\<close>

lemma f32_sum_1: "f32 (11324621 / 2097152) = 11324621 / 2097152"
proof -
  have "fround 24 (- 126) 127 (of_int 11324621 * 2 powi (- 21)) = of_int 11324621 * 2 powi (- 21)"
    by (rule fround_dyadic) (simp_all add: power_int_minus)
  then show ?thesis by (simp add: f32_def power_int_minus)
qed

lemma f32_sum_2: "f32 (11324621 / 1048576) = 11324621 / 1048576"
proof -
  have "fround 24 (- 126) 127 (of_int 11324621 * 2 powi (- 20)) = of_int 11324621 * 2 powi (- 20)"
    by (rule fround_dyadic) (simp_all add: power_int_minus)
  then show ?thesis by (simp add: f32_def power_int_minus)
qed

lemma f32_sum_3: "f32 (33973863 / 2097152) = 4246733 / 262144"
proof -
  have "fround 24 (- 126) 127 (33973863 / 2097152) =
          2 powi (4 - int 24 + 1)
            * of_int (round_half_even (33973863 / 2097152 / 2 powi (4 - int 24 + 1)))"
    by (rule fround_at) simp_all
  moreover have "\<lfloor>33973863 / (4::real)\<rfloor> = 8493465"
    by (rule floor_unique) simp_all
  ultimately show ?thesis by (simp add: f32_def round_half_even_def Let_def power_int_minus)
qed

lemma f32_sum_4: "f32 (45298485 / 2097152) = 11324621 / 524288"
proof -
  have "fround 24 (- 126) 127 (45298485 / 2097152) =
          2 powi (4 - int 24 + 1)
            * of_int (round_half_even (45298485 / 2097152 / 2 powi (4 - int 24 + 1)))"
    by (rule fround_at) simp_all
  moreover have "\<lfloor>45298485 / (4::real)\<rfloor> = 11324621"
    by (rule floor_unique) simp_all
  ultimately show ?thesis by (simp add: f32_def round_half_even_def Let_def power_int_minus)
qed

lemma f32_sum_5: "f32 (56623105 / 2097152) = 27"
proof -
  have "fround 24 (- 126) 127 (56623105 / 2097152) =
          2 powi (4 - int 24 + 1)
            * of_int (round_half_even (56623105 / 2097152 / 2 powi (4 - int 24 + 1)))"
    by (rule fround_at) simp_all
  moreover have "\<lfloor>56623105 / (4::real)\<rfloor> = 14155776"
    by (rule floor_unique) simp_all
  ultimately show ?thesis by (simp add: f32_def round_half_even_def Let_def power_int_minus)
qed

lemma rounding_example_run:
  "linebreak_greedy rounding_example 27 27 =
     [mk_glyph 97 SPLIT_NONE (11324621 / 2097152), mk_glyph 32 SPLIT_NONE (11324621 / 2097152),
      mk_glyph 98 SPLIT_NONE (11324621 / 2097152), mk_glyph 99 SPLIT_NONE (11324621 / 2097152),
      mk_glyph 100 SPLIT_NONE (11324621 / 2097152)]"
  by (simp add: linebreak_greedy_def greedy_loop_def greedy_init_def greedy_step_def Let_def
      demote_def set_split_def rounding_example_def mk_glyph_def glyph0_def upt_rec
      f32_sum_1 f32_sum_2 f32_sum_3 f32_sum_4 f32_sum_5)

lemma rounding_example_overflow:
  "is_line (linebreak_greedy rounding_example 27 27) 0 5
   \<and> candidate_on_line rounding_example (linebreak_greedy rounding_example 27 27) 0 5
   \<and> line_budget (linebreak_greedy rounding_example 27 27) 27 27 0 5 = 27
   \<and> measured_advance (slice rounding_example 0 5) = 27 + 1 / 2 ^ 21"
proof -
  have "is_line (linebreak_greedy rounding_example 27 27) 0 5"
    unfolding rounding_example_run
    by (simp add: is_line_def break_at_def is_break_def counted_def mk_glyph_def glyph0_def
        greaterThanLessThan_upt upt_rec)
  moreover have "candidate_on_line rounding_example (linebreak_greedy rounding_example 27 27) 0 5"
    unfolding rounding_example_run candidate_on_line_def
    by (rule bexI [of _ 1])
       (simp_all add: rounding_example_def is_break_def counted_def mk_glyph_def glyph0_def)
  moreover have "line_budget (linebreak_greedy rounding_example 27 27) 27 27 0 5 = 27"
    unfolding rounding_example_run
    by (simp add: line_budget_def break_at_def is_break_def counted_def mk_glyph_def glyph0_def)
  moreover have "measured_advance (slice rounding_example 0 5) = 27 + 1 / 2 ^ 21"
    by (simp add: measured_advance_def total_advance_def slice_def rounding_example_def
        hanging_def counted_def mk_glyph_def glyph0_def)
  ultimately show ?thesis by blast
qed

text \<open>
  C1 (as amended). Let the two width budgets be C ints that are binary32 values, and
  let the accumulated advance of every run of consecutive glyphs of the list be a
  finite binary32 value (\<open>exact_sums\<close>: no sum of the loop rounds). Take any line of
  the list that \<open>linebreak_greedy\<close> leaves (the breaks are the counted glyphs
  that still carry split-instead or split-before) on which a split candidate existed,
  that is, a glyph of the line, other than the break that starts it, that was a counted
  split-instead or split-before glyph before the call. The accumulated advance of that
  line, without the hanging glyphs at its end (split-ignore, ruby-top and ruby-alt
  glyphs, whose advance the overflow test puts aside), does not exceed the width budget
  in effect for the line.
\<close>

theorem greedy_line_bound:
  assumes "in_int first_width" and "in_int rest_width"
    and "is_f32 (real_of_int first_width)" and "is_f32 (real_of_int rest_width)"
    and "exact_sums gl"
    and "is_line (linebreak_greedy gl first_width rest_width) a b"
    and "candidate_on_line gl (linebreak_greedy gl first_width rest_width) a b"
  shows "measured_advance (slice gl a b)
           \<le> line_budget (linebreak_greedy gl first_width rest_width) first_width rest_width a b"
proof -
  let ?st = "greedy_loop gl first_width rest_width"
  let ?H = "linebreak_greedy gl first_width rest_width"
  have fw: "f32 (real_of_int first_width) = real_of_int first_width"
    using assms(3) by (simp add: is_f32_def)
  have rw: "f32 (real_of_int rest_width) = real_of_int rest_width"
    using assms(4) by (simp add: is_f32_def)
  obtain L where inv: "greedy_inv gl first_width rest_width (length gl) ?st L"
    using greedy_loop_inv [OF fw rw assms(5)] by blast
  show ?thesis
  proof (cases "lb_x ?st > lb_width ?st")
    case False
    then have H: "?H = demote (lb_split_g ?st) (lb_glyphs ?st)"
      by (simp add: linebreak_greedy_def Let_def)
    from False have fits: "lb_x ?st \<le> lb_width ?st \<or> lb_split_g ?st = None" by simp
    show ?thesis using inv fits H assms(6,7) by (rule final_lines)
  next
    case True
    then have H: "?H = lb_glyphs ?st"
      by (simp add: linebreak_greedy_def Let_def demote_def)
    show ?thesis
    proof (cases "lb_split_g ?st")
      case None
      then have H': "?H = demote (lb_split_g ?st) (lb_glyphs ?st)"
        using H by (simp add: demote_def)
      have fits: "lb_x ?st \<le> lb_width ?st \<or> lb_split_g ?st = None" using None by simp
      show ?thesis using inv fits H' assms(6,7) by (rule final_lines)
    next
      case (Some p)
      let ?st1 = "greedy_commit (real_of_int rest_width) ?st"
      have inv1: "greedy_inv gl first_width rest_width (length gl) ?st1 (nxt gl p)"
        using inv Some by (rule inv_commit)
      have n1: "lb_split_g ?st1 = None" by (simp add: greedy_commit_def)
      have H': "?H = demote (lb_split_g ?st1) (lb_glyphs ?st1)"
        using H by (simp add: greedy_commit_def demote_def)
      have fits: "lb_x ?st1 \<le> lb_width ?st1 \<or> lb_split_g ?st1 = None" using n1 by simp
      show ?thesis using inv1 fits H' assms(6,7) by (rule final_lines)
    qed
  qed
qed

theorem greedy_line_bound_witness:
  "is_line (linebreak_greedy hanging_example 20 20) 0 6
   \<and> candidate_on_line hanging_example (linebreak_greedy hanging_example 20 20) 0 6
   \<and> exact_sums hanging_example
   \<and> measured_advance (slice hanging_example 0 6)
        \<le> line_budget (linebreak_greedy hanging_example 20 20) 20 20 0 6
   \<and> measured_advance (slice hanging_example 0 6) = 15"
proof -
  have w: "in_int 20" "is_f32 (real_of_int 20)"
    using is_f32_int [of 20] by (simp_all add: in_int_def)
  show ?thesis
    using greedy_line_bound
      [OF w(1) w(1) w(2) w(2) hanging_example_exact hanging_example_line hanging_example_cand]
      hanging_example_line hanging_example_cand hanging_example_measured hanging_example_exact
    by simp
qed

theorem greedy_line_bound_counterexample:
  "is_line (linebreak_greedy hanging_example 20 20) 0 6
   \<and> is_break (hanging_example ! 1)
   \<and> total_advance (slice hanging_example 0 4)
        \<le> line_budget (linebreak_greedy hanging_example 20 20) 20 20 0 6
   \<and> line_budget (linebreak_greedy hanging_example 20 20) 20 20 0 6
        < total_advance (slice hanging_example 0 5)"
proof -
  have "is_break (hanging_example ! 1)"
    by (simp add: hanging_example_def is_break_def counted_def mk_glyph_def glyph0_def)
  then show ?thesis
    using hanging_example_line
    by (simp add: hanging_example_budget hanging_example_totals)
qed

end
